theory Spec2Isabelle
  imports Main
begin

section \<open>Strings and object keys\<close>

text \<open>
  Strings are lists of characters. \<open>toUpperCase\<close> and \<open>toLowerCase\<close> are the engine's
  case maps on ASCII text, the text of the paths, status codes and identifiers the
  tools handle: they re-case the 26 letters and leave every other character as it is.
  The engine also re-cases letters outside ASCII (an accented letter to its capital, the
  sharp s to \<open>SS\<close>), which the model does not follow; a statement about a re-cased string is
  therefore made for ASCII strings (\<open>ascii\<close>).

  A JavaScript object is an association list in property enumeration order, the order
  of \<open>Object.keys\<close>: keys that are canonical array indices come first, in ascending
  numeric order, the other keys follow in insertion order. A parsed document has
  distinct keys.
\<close>

definition digit_chars :: "string" where
  "digit_chars = ''0123456789''"

fun show_nat :: "nat \<Rightarrow> string" where
  "show_nat n = (if n < 10 then [digit_chars ! n] else show_nat (n div 10) @ [digit_chars ! (n mod 10)])"

declare show_nat.simps [simp del]

definition digit_val :: "char \<Rightarrow> nat" where
  "digit_val c = (case List.find (\<lambda>i. digit_chars ! i = c) [0..<10] of Some i \<Rightarrow> i | None \<Rightarrow> 0)"

text \<open>The order of two decimal numerals without leading zeros: the shorter is the smaller,
  and numerals of one length compare digit by digit.\<close>

fun digits_less :: "string \<Rightarrow> string \<Rightarrow> bool" where
  "digits_less (c # cs) (d # ds) = (digit_val c < digit_val d \<or> (c = d \<and> digits_less cs ds))"
| "digits_less cs ds = False"

definition index_less :: "string \<Rightarrow> string \<Rightarrow> bool" where
  "index_less a b = (length a < length b \<or> (length a = length b \<and> digits_less a b))"

text \<open>A key that is a canonical array index (\<open>"0"\<close>, \<open>"17"\<close>, not \<open>"017"\<close>, and below
  \<open>2^32 - 1\<close>); such keys enumerate first, in numeric order.\<close>

definition is_index :: "string \<Rightarrow> bool" where
  "is_index k =
     (k \<noteq> [] \<and> (\<forall>c \<in> set k. c \<in> set digit_chars) \<and> (hd k \<noteq> CHR ''0'' \<or> k = ''0'')
        \<and> index_less k ''4294967295'')"

fun insert_index :: "string \<Rightarrow> 'a \<Rightarrow> (string \<times> 'a) list \<Rightarrow> (string \<times> 'a) list" where
  "insert_index k v [] = [(k, v)]"
| "insert_index k v ((k', v') # rest) =
     (if is_index k' \<and> index_less k' k then (k', v') # insert_index k v rest
      else (k, v) # (k', v') # rest)"

text \<open>Defining the own property \<open>k\<close> of an object: an existing key keeps its place; a
  new index key is placed among the index keys; any other new key goes last. This is what
  an object literal and a spread do for every key, and what an assignment \<open>obj[k] = v\<close>
  does for every key but a \<open>__proto__\<close> that the object does not own (\<open>js_assign\<close> below).\<close>

definition js_set :: "(string \<times> 'a) list \<Rightarrow> string \<Rightarrow> 'a \<Rightarrow> (string \<times> 'a) list" where
  "js_set kvs k v =
     (if k \<in> fst ` set kvs then map (\<lambda>(k', v'). if k' = k then (k', v) else (k', v')) kvs
      else if is_index k then insert_index k v kvs else kvs @ [(k, v)])"


text \<open>The elements of an array (the characters of a string) with their indices as keys.\<close>

fun indexed :: "nat \<Rightarrow> 'a list \<Rightarrow> (string \<times> 'a) list" where
  "indexed i [] = []"
| "indexed i (x # xs) = (show_nat i, x) # indexed (Suc i) xs"

text \<open>\<open>delete obj[k]\<close>.\<close>

definition js_delete :: "(string \<times> 'a) list \<Rightarrow> string \<Rightarrow> (string \<times> 'a) list" where
  "js_delete kvs k = filter (\<lambda>(k', v'). k' \<noteq> k) kvs"

fun split_on :: "char \<Rightarrow> string \<Rightarrow> string list" where
  "split_on c [] = [[]]"
| "split_on c (x # xs) =
     (if x = c then [] # split_on c xs
      else (case split_on c xs of w # ws \<Rightarrow> (x # w) # ws | [] \<Rightarrow> [[x]]))"

definition upper_chars :: "string" where
  "upper_chars = ''ABCDEFGHIJKLMNOPQRSTUVWXYZ''"

definition lower_chars :: "string" where
  "lower_chars = ''abcdefghijklmnopqrstuvwxyz''"

definition toUpperChar :: "char \<Rightarrow> char" where
  "toUpperChar c = (case List.find (\<lambda>i. lower_chars ! i = c) [0..<26] of Some i \<Rightarrow> upper_chars ! i | None \<Rightarrow> c)"

definition toLowerChar :: "char \<Rightarrow> char" where
  "toLowerChar c = (case List.find (\<lambda>i. upper_chars ! i = c) [0..<26] of Some i \<Rightarrow> lower_chars ! i | None \<Rightarrow> c)"

definition toUpperCase :: "string \<Rightarrow> string" where
  "toUpperCase s = map toUpperChar s"

definition toLowerCase :: "string \<Rightarrow> string" where
  "toLowerCase s = map toLowerChar s"

text \<open>A string of ASCII characters: every code is below 128 (the eighth bit is clear).\<close>

definition ascii :: "string \<Rightarrow> bool" where
  "ascii s = list_all (\<lambda>c. \<not> digit7 c) s"

section \<open>The patch pass over one operation (patch.ts)\<close>

text \<open>
  The interfaces of patch.ts as records. The schema type is a parameter: the passes
  modelled here never look inside a schema. \<open>operationId\<close> is declared a string but the
  pass tests it for absence, so it is optional here (absent or empty is falsy).
\<close>

record 's parameter =
  p_name :: string
  p_in :: string
  p_description :: "string option"
  p_required :: "bool option"
  p_schema :: "'s option"

record 's requestBody =
  rb_description :: "string option"
  rb_required :: "bool option"
  rb_content :: "(string \<times> 's) list option"

record 's response =
  r_description :: string
  r_content :: "(string \<times> 's) list option"

record 's operation =
  operationId :: "string option"
  op_summary :: "string option"
  op_description :: "string option"
  op_parameters :: "'s parameter list option"
  op_requestBody :: "'s requestBody option"
  op_responses :: "(string \<times> 's response) list option"
  op_tags :: "string list option"

text \<open>The calls of \<open>log(level, message)\<close> a pass makes, in order.\<close>

type_synonym log = "(string \<times> string) list"

definition INTERNAL_HEADERS :: "string list" where
  "INTERNAL_HEADERS = [''QB-Realm-Hostname'', ''Authorization'', ''User-Agent'', ''Content-Type'']"

definition REQUIRED_BODY_OPERATIONS :: "string list" where
  "REQUIRED_BODY_OPERATIONS =
    [''upsert'', ''deleteRecords'', ''runQuery'', ''runFormula'', ''createApp'', ''deleteApp'',
     ''copyApp'', ''createTable'', ''createField'', ''deleteFields'', ''createRelationship'',
     ''audit'', ''exchangeSsoToken'', ''cloneUserToken'', ''transferUserToken'', ''denyUsers'',
     ''denyUsersAndGroups'', ''undenyUsers'', ''addMembersToGroup'', ''removeMembersFromGroup'',
     ''addManagersToGroup'', ''removeManagersFromGroup'', ''addSubgroupsToGroup'',
     ''removeSubgroupsFromGroup'', ''createSolution'', ''changesetSolution'']"

definition removeInternalHeaders :: "'s operation \<Rightarrow> 's operation" where
  "removeInternalHeaders operation =
     (case op_parameters operation of
        None \<Rightarrow> operation
      | Some ps \<Rightarrow> operation\<lparr>op_parameters :=
          Some (filter (\<lambda>p. p_in p \<noteq> ''header'' \<or> p_name p \<notin> set INTERNAL_HEADERS) ps)\<rparr>)"

text \<open>The first loop of \<open>normalizeResponseCodes\<close>: the renames to make, in key order.\<close>

fun keysToRename :: "string list \<Rightarrow> (string \<times> string) list" where
  "keysToRename [] = []"
| "keysToRename (code # codes) =
     (if code = ''401/403'' then (code, ''401'') # keysToRename codes
      else if code = ''4xx/5xx'' \<or> code = ''4xx'' \<or> code = ''5xx'' then (code, ''default'') # keysToRename codes
      else keysToRename codes)"

text \<open>A template literal prints an absent operationId as \<open>undefined\<close>.\<close>

definition template_id :: "string option \<Rightarrow> string" where
  "template_id i = (case i of None \<Rightarrow> ''undefined'' | Some s \<Rightarrow> s)"

definition normalized_message :: "string \<Rightarrow> string \<Rightarrow> string option \<Rightarrow> string" where
  \<open>normalized_message old newKey opid =
     ''Normalized response code "'' @ old @ ''" -> "'' @ newKey @ ''" in '' @ template_id opid\<close>

text \<open>The second loop: copy to the canonical key unless it is occupied (a response is an
  object, so an entry that is present is truthy), then delete the old key. Every \<open>old\<close>
  was read off the object's keys, so \<open>responses[old]\<close> is present when it is read.\<close>

fun rename_loop :: "string option \<Rightarrow> (string \<times> string) list \<Rightarrow> (string \<times> 'r) list \<times> log
    \<Rightarrow> (string \<times> 'r) list \<times> log" where
  "rename_loop opid [] st = st"
| "rename_loop opid ((old, newKey) # ks) (responses, lg) =
     rename_loop opid ks
       (js_delete
          (case map_of responses newKey of
             None \<Rightarrow> (case map_of responses old of Some r \<Rightarrow> js_set responses newKey r | None \<Rightarrow> responses)
           | Some occupied \<Rightarrow> responses)
          old,
        lg @ [(''info'', normalized_message old newKey opid)])"

definition normalizeResponseCodes :: "'s operation \<Rightarrow> 's operation \<times> log" where
  "normalizeResponseCodes operation =
     (case op_responses operation of
        None \<Rightarrow> (operation, [])
      | Some responses \<Rightarrow>
          (let (responses', lg) =
                 rename_loop (operationId operation) (keysToRename (map fst responses)) (responses, [])
           in (operation\<lparr>op_responses := Some responses'\<rparr>, lg)))"


text \<open>The composite status-code keys the pass rewrites, and the canonical key each one is
  rewritten to (the two branches of the first loop).\<close>

definition is_composite :: "string \<Rightarrow> bool" where
  "is_composite code = (code = ''401/403'' \<or> code = ''4xx/5xx'' \<or> code = ''4xx'' \<or> code = ''5xx'')"

definition canonical_of :: "string \<Rightarrow> string" where
  "canonical_of code = (if code = ''401/403'' then ''401'' else ''default'')"

text \<open>\<open>patchOperation\<close>: strip the internal headers, normalise the response codes, give
  an operation without an identifier one made from the method and the path, and force
  the body of the listed operations to be required.\<close>

definition methodPrefix :: "string \<Rightarrow> string" where
  "methodPrefix method = (if method = ''get'' then ''get'' else if method = ''post'' then ''create'' else method)"

definition startsWith_brace :: "string \<Rightarrow> bool" where
  "startsWith_brace p = (case p of [] \<Rightarrow> False | c # cs \<Rightarrow> c = CHR ''{'')"

text \<open>\<open>path.split('/').filter(Boolean)\<close>, then parameter segments blanked, the blanks
  filtered out and the rest joined.\<close>

definition baseName :: "string \<Rightarrow> string" where
  "baseName path =
     concat (filter (\<lambda>p. p \<noteq> [])
       (map (\<lambda>p. if startsWith_brace p then [] else p)
          (filter (\<lambda>p. p \<noteq> []) (split_on CHR ''/'' path))))"

text \<open>\<open>s.charAt(0).toUpperCase() + s.slice(1)\<close> (the engine's result when the first
  character is an ASCII character, see \<open>toUpperCase\<close>).\<close>

definition upper_first :: "string \<Rightarrow> string" where
  "upper_first s = toUpperCase (take 1 s) @ drop 1 s"

definition synthesized_id :: "string \<Rightarrow> string \<Rightarrow> string" where
  "synthesized_id path method = methodPrefix method @ upper_first (baseName path)"

definition id_missing :: "string option \<Rightarrow> bool" where
  "id_missing i = (case i of None \<Rightarrow> True | Some s \<Rightarrow> s = [])"

definition patchOperation :: "'s operation \<Rightarrow> string \<Rightarrow> string \<Rightarrow> 's operation \<times> log" where
  "patchOperation operation path method =
     (let op1 = removeInternalHeaders operation;
          (op2, lg) = normalizeResponseCodes op1;
          op3 = (if id_missing (operationId op2)
                 then op2\<lparr>operationId := Some (synthesized_id path method)\<rparr> else op2);
          op4 = (case op_requestBody op3 of
                   None \<Rightarrow> op3
                 | Some rb \<Rightarrow>
                     (case operationId op3 of
                        None \<Rightarrow> op3
                      | Some i \<Rightarrow> if i \<in> set REQUIRED_BODY_OPERATIONS
                                  then op3\<lparr>op_requestBody := Some (rb\<lparr>rb_required := Some True\<rparr>)\<rparr>
                                  else op3))
      in (op4, lg))"

text \<open>The loop of \<open>patch\<close> over the document: every path, and under it the five methods
  in the fixed order, patching each operation that is present.\<close>

record 's pathItem =
  pi_get :: "'s operation option"
  pi_post :: "'s operation option"
  pi_put :: "'s operation option"
  pi_delete :: "'s operation option"
  pi_patch :: "'s operation option"
  pi_parameters :: "'s parameter list option"

definition METHODS :: "string list" where
  "METHODS = [''get'', ''post'', ''put'', ''delete'', ''patch'']"

definition method_of :: "string \<Rightarrow> 's pathItem \<Rightarrow> 's operation option" where
  "method_of m item =
     (if m = ''get'' then pi_get item else if m = ''post'' then pi_post item
      else if m = ''put'' then pi_put item else if m = ''delete'' then pi_delete item
      else if m = ''patch'' then pi_patch item else None)"

definition method_update :: "string \<Rightarrow> 's operation \<Rightarrow> 's pathItem \<Rightarrow> 's pathItem" where
  "method_update m operation item =
     (if m = ''get'' then item\<lparr>pi_get := Some operation\<rparr>
      else if m = ''post'' then item\<lparr>pi_post := Some operation\<rparr>
      else if m = ''put'' then item\<lparr>pi_put := Some operation\<rparr>
      else if m = ''delete'' then item\<lparr>pi_delete := Some operation\<rparr>
      else if m = ''patch'' then item\<lparr>pi_patch := Some operation\<rparr>
      else item)"

fun patchMethods :: "string \<Rightarrow> string list \<Rightarrow> 's pathItem \<times> log \<Rightarrow> 's pathItem \<times> log" where
  "patchMethods path [] st = st"
| "patchMethods path (m # ms) (item, lg) =
     patchMethods path ms
       (case method_of m item of
          None \<Rightarrow> (item, lg)
        | Some operation \<Rightarrow>
            (method_update m (fst (patchOperation operation path m)) item,
             lg @ snd (patchOperation operation path m)))"

fun patchPaths :: "(string \<times> 's pathItem) list \<Rightarrow> (string \<times> 's pathItem) list \<times> log" where
  "patchPaths [] = ([], [])"
| "patchPaths ((path, item) # rest) =
     (let (item', lg) = patchMethods path METHODS (item, []);
          (rest', lg') = patchPaths rest
      in ((path, item') # rest', lg @ lg'))"

text \<open>The reading of the identifier that capitalises every segment (PascalCase), for
  comparison with what the pass builds.\<close>

definition non_parameter_segments :: "string \<Rightarrow> string list" where
  "non_parameter_segments path =
     filter (\<lambda>p. p \<noteq> [] \<and> \<not> startsWith_brace p) (split_on CHR ''/'' path)"

definition pascalCase_id :: "string \<Rightarrow> string \<Rightarrow> string" where
  "pascalCase_id path method = methodPrefix method @ concat (map upper_first (non_parameter_segments path))"

text \<open>Sample operations.\<close>

definition sample_response :: "string \<Rightarrow> unit response" where
  "sample_response d = \<lparr>r_description = d, r_content = None\<rparr>"

definition sample_operation :: "string option \<Rightarrow> (string \<times> unit response) list option \<Rightarrow> unit operation" where
  "sample_operation i rs =
     \<lparr>operationId = i, op_summary = None, op_description = None, op_parameters = None,
      op_requestBody = None, op_responses = rs, op_tags = None\<rparr>"

definition sample_responses :: "(string \<times> unit response) list" where
  "sample_responses =
     [(''200'', sample_response ''ok''), (''401/403'', sample_response ''auth''),
      (''4xx'', sample_response ''client''), (''5xx'', sample_response ''server'')]"

definition occupied_responses :: "(string \<times> unit response) list" where
  "occupied_responses =
     [(''401'', sample_response ''explicit''), (''401/403'', sample_response ''auth''),
      (''default'', sample_response ''fallback''), (''4xx/5xx'', sample_response ''errors'')]"

definition sample_pathItem :: "unit pathItem" where
  "sample_pathItem =
     \<lparr>pi_get = Some (sample_operation None None), pi_post = Some (sample_operation (Some []) None),
      pi_put = None, pi_delete = Some (sample_operation (Some ''removeApp'') None), pi_patch = None,
      pi_parameters = None\<rparr>"

section \<open>Parsed documents and JavaScript values (health-check.ts, validate.ts, convert.ts)\<close>

text \<open>
  The fixture checker, the structural validator and the converter walk parsed JSON without
  looking at its static type, so their data is modelled as it is at run time: a JSON
  tree. A number is kept as its canonical decimal rendering (what \<open>String(n)\<close> returns):
  the tools observe a number only through \<open>typeof\<close>, through truthiness (\<open>0\<close> is falsy)
  and through that rendering.

  Three values that are not JSON can be reached from a parsed document, because property
  lookup follows the prototype chain: \<open>o["toString"]\<close> is a function for every object,
  and \<open>o["__proto__"]\<close> is \<open>Object.prototype\<close> (\<open>Array.prototype\<close> for an array). They are
  \<open>JFunction\<close>, \<open>JObjectPrototype\<close> and \<open>JArrayPrototype\<close>.
\<close>

datatype jsv =
    JNull
  | JBool bool
  | JNum string
  | JStr string
  | JArr "jsv list"
  | JObj "(string \<times> jsv) list"
  | JFunction
  | JObjectPrototype
  | JArrayPrototype

text \<open>What a throwing statement throws.\<close>

datatype error = TypeError

text \<open>How a call of a recursive tool function ends. The fuel is the depth of nested
  calls that is left: a call passes one less to each call it makes, and a call with none
  left ends as \<open>OutOfFuel\<close>. The engine bounds that depth by its call stack and ends a
  call that exceeds it with a \<open>RangeError\<close>, which no recursive function here catches:
  \<open>OutOfFuel\<close> at fuel \<open>n\<close> is the outcome on a stack that admits \<open>n\<close> nested calls, and a
  recursion that never ends is \<open>OutOfFuel\<close> for every fuel.\<close>

datatype 'a outcome = OutOfFuel | Throws error | Returns 'a

text \<open>Truthiness (\<open>if (v)\<close>, \<open>!v\<close>, \<open>a || b\<close>); \<open>None\<close> is \<open>undefined\<close>.\<close>

fun truthy :: "jsv \<Rightarrow> bool" where
  "truthy JNull = False"
| "truthy (JBool b) = b"
| "truthy (JNum s) = (s \<noteq> ''0'')"
| "truthy (JStr s) = (s \<noteq> [])"
| "truthy v = True"

definition truthy_opt :: "jsv option \<Rightarrow> bool" where
  "truthy_opt v = (case v of None \<Rightarrow> False | Some x \<Rightarrow> truthy x)"

text \<open>\<open>typeof v\<close>.\<close>

fun js_typeof :: "jsv \<Rightarrow> string" where
  "js_typeof JNull = ''object''"
| "js_typeof (JBool b) = ''boolean''"
| "js_typeof (JNum s) = ''number''"
| "js_typeof (JStr s) = ''string''"
| "js_typeof (JArr xs) = ''object''"
| "js_typeof (JObj kvs) = ''object''"
| "js_typeof JFunction = ''function''"
| "js_typeof JObjectPrototype = ''object''"
| "js_typeof JArrayPrototype = ''object''"

text \<open>\<open>Array.isArray(v)\<close>; \<open>Array.prototype\<close> is itself an (empty) array.\<close>

fun isArray :: "jsv \<Rightarrow> bool" where
  "isArray (JArr xs) = True"
| "isArray JArrayPrototype = True"
| "isArray v = False"

text \<open>The string-keyed members of \<open>Object.prototype\<close> and of \<open>Array.prototype\<close> (Node 20).\<close>

definition object_prototype_names :: "string list" where
  "object_prototype_names =
    [''constructor'', ''__defineGetter__'', ''__defineSetter__'', ''hasOwnProperty'',
     ''__lookupGetter__'', ''__lookupSetter__'', ''isPrototypeOf'', ''propertyIsEnumerable'',
     ''toString'', ''valueOf'', ''__proto__'', ''toLocaleString'']"

definition array_prototype_names :: "string list" where
  "array_prototype_names =
    [''at'', ''concat'', ''copyWithin'', ''fill'', ''find'', ''findIndex'', ''findLast'',
     ''findLastIndex'', ''lastIndexOf'', ''pop'', ''push'', ''reverse'', ''shift'', ''unshift'',
     ''slice'', ''sort'', ''splice'', ''includes'', ''indexOf'', ''join'', ''keys'', ''entries'',
     ''values'', ''forEach'', ''filter'', ''flat'', ''flatMap'', ''map'', ''every'', ''some'',
     ''reduce'', ''reduceRight'', ''toReversed'', ''toSorted'', ''toSpliced'', ''with'']"

text \<open>An inherited member: \<open>__proto__\<close> reads the prototype, every other name is a method.\<close>

definition inherited :: "jsv \<Rightarrow> string list \<Rightarrow> string \<Rightarrow> jsv option" where
  "inherited proto names k =
     (if k = ''__proto__'' then Some proto else if k \<in> set names then Some JFunction else None)"

text \<open>The element of an array at a key that is a canonical index in range.\<close>

definition element_at :: "jsv list \<Rightarrow> string \<Rightarrow> jsv option" where
  "element_at xs k = map_of (indexed 0 xs) k"

text \<open>\<open>o[k]\<close> for an object \<open>o\<close>: the own property, else the inherited one, else
  \<open>undefined\<close>. From a primitive or a function the tools read only the schema fields and
  \<open>$ref\<close>, which none of them has: that read is \<open>undefined\<close>. (Reading from \<open>null\<close> throws;
  the callers that can meet \<open>null\<close> test for it.)\<close>

fun get_property :: "jsv \<Rightarrow> string \<Rightarrow> jsv option" where
  "get_property (JObj kvs) k =
     (case map_of kvs k of Some v \<Rightarrow> Some v | None \<Rightarrow> inherited JObjectPrototype object_prototype_names k)"
| "get_property (JArr xs) k =
     (case element_at xs k of
        Some v \<Rightarrow> Some v
      | None \<Rightarrow> if k = ''length'' then Some (JNum (show_nat (length xs)))
                else inherited JArrayPrototype (array_prototype_names @ object_prototype_names) k)"
| "get_property JObjectPrototype k = inherited JNull object_prototype_names k"
| "get_property JArrayPrototype k =
     (if k = ''length'' then Some (JNum ''0'')
      else inherited JObjectPrototype (array_prototype_names @ object_prototype_names) k)"
| "get_property v k = None"

text \<open>\<open>k in o\<close> for an object \<open>o\<close>: no property of a parsed document holds \<open>undefined\<close>, so
  the key is in the object exactly when the read finds something.\<close>

definition has_property :: "jsv \<Rightarrow> string \<Rightarrow> bool" where
  "has_property v k = (get_property v k \<noteq> None)"

text \<open>\<open>v && typeof v === 'object'\<close>: the values \<open>in\<close> accepts on its right.\<close>

definition is_object :: "jsv \<Rightarrow> bool" where
  "is_object v = (v \<noteq> JNull \<and> js_typeof v = ''object'')"

text \<open>\<open>Object.entries(v)\<close>, \<open>Object.keys(v)\<close>, \<open>Object.values(v)\<close>: the own enumerable
  properties. A string has its characters at its indices, a number or a boolean has
  none, the prototypes' members are not enumerable.\<close>

fun object_entries :: "jsv \<Rightarrow> (string \<times> jsv) list" where
  "object_entries (JObj kvs) = kvs"
| "object_entries (JArr xs) = indexed 0 xs"
| "object_entries (JStr s) = indexed 0 (map (\<lambda>c. JStr [c]) s)"
| "object_entries v = []"

definition object_keys :: "jsv \<Rightarrow> string list" where
  "object_keys v = map fst (object_entries v)"

definition object_values :: "jsv \<Rightarrow> jsv list" where
  "object_values v = map snd (object_entries v)"

text \<open>\<open>for (const x of v)\<close>: an array yields its elements, a string its characters, any
  other JSON value is not iterable.\<close>

fun iterate :: "jsv \<Rightarrow> error + jsv list" where
  "iterate (JArr xs) = Inr xs"
| "iterate JArrayPrototype = Inr []"
| "iterate (JStr s) = Inr (map (\<lambda>c. JStr [c]) s)"
| "iterate v = Inl TypeError"

text \<open>The first throw of a list of results, else all the values; and a function applied
  to a result that is not a throw.\<close>

fun all_or_throw :: "(error + 'a) list \<Rightarrow> error + 'a list" where
  "all_or_throw [] = Inr []"
| "all_or_throw (Inl e # rs) = Inl e"
| "all_or_throw (Inr x # rs) = (case all_or_throw rs of Inl e \<Rightarrow> Inl e | Inr xs \<Rightarrow> Inr (x # xs))"

definition map_result :: "('a \<Rightarrow> 'b) \<Rightarrow> error + 'a \<Rightarrow> error + 'b" where
  "map_result f r = (case r of Inl e \<Rightarrow> Inl e | Inr x \<Rightarrow> Inr (f x))"

text \<open>
  \<open>String(v)\<close>, as a template literal and the left side of \<open>in\<close> apply it to a value of a
  parsed document. An array joins the strings of its elements with commas, printing \<open>null\<close>
  as nothing. An object is printed by the \<open>toString\<close> it finds: the inherited one prints
  \<open>[object Object]\<close>; an own property \<open>toString\<close> of a parsed document is not a function,
  the engine then turns to \<open>valueOf\<close>, which is an own property that is not a function
  either or the inherited one that returns the object itself, and throws a \<open>TypeError\<close>.
  (\<open>JFunction\<close> stands for any built-in method; the engine prints one with its name, the
  model without. No value of a parsed document is a function.)
\<close>

fun join_with :: "string \<Rightarrow> string list \<Rightarrow> string" where
  "join_with sep [] = []"
| "join_with sep [x] = x"
| "join_with sep (x # y # ys) = x @ sep @ join_with sep (y # ys)"

fun to_string :: "jsv \<Rightarrow> error + string" where
  "to_string JNull = Inr ''null''"
| "to_string (JBool b) = Inr (if b then ''true'' else ''false'')"
| "to_string (JNum s) = Inr s"
| "to_string (JStr s) = Inr s"
| "to_string (JArr xs) =
     map_result (join_with '','') (all_or_throw (map (\<lambda>x. if x = JNull then Inr [] else to_string x) xs))"
| "to_string (JObj kvs) = (if ''toString'' \<in> fst ` set kvs then Inl TypeError else Inr ''[object Object]'')"
| "to_string JFunction = Inr ''function () { [native code] }''"
| "to_string JObjectPrototype = Inr ''[object Object]''"
| "to_string JArrayPrototype = Inr []"


text \<open>\<open>s.replace(pat, rep)\<close> with a string pattern: the first occurrence only.\<close>

fun replace_first :: "string \<Rightarrow> string \<Rightarrow> string \<Rightarrow> string" where
  "replace_first pat rep [] = (if pat = [] then rep else [])"
| "replace_first pat rep (c # cs) =
     (if take (length pat) (c # cs) = pat then rep @ drop (length pat) (c # cs)
      else c # replace_first pat rep cs)"

definition startsWith :: "string \<Rightarrow> string \<Rightarrow> bool" where
  "startsWith s pre = (take (length pre) s = pre)"

section \<open>The fixture validator (health-check.ts)\<close>

text \<open>\<open>resolveRef\<close>: drop the first \<open>#/\<close>, split at the slashes and descend from the document
  by key; \<open>null\<close> when a segment is missing (or when the node found is \<open>null\<close>).\<close>

fun resolve_walk :: "jsv \<Rightarrow> string list \<Rightarrow> jsv" where
  "resolve_walk current [] = current"
| "resolve_walk current (part # parts) =
     (if is_object current \<and> has_property current part
      then (case get_property current part of Some v \<Rightarrow> resolve_walk v parts | None \<Rightarrow> JNull)
      else JNull)"

definition resolveRef :: "string \<Rightarrow> jsv \<Rightarrow> jsv" where
  "resolveRef ref spec = resolve_walk spec (split_on CHR ''/'' (replace_first ''#/'' [] ref))"

fun getTypeOf :: "jsv \<Rightarrow> string" where
  "getTypeOf JNull = ''null''"
| "getTypeOf v = (if isArray v then ''array'' else js_typeof v)"

text \<open>A field of a schema node, \<open>schema.type\<close> and the like. None of the field names the
  validator reads is an inherited member, so the read sees own properties only, and a
  schema that is not an object has no field.\<close>

definition schema_field :: "jsv \<Rightarrow> string \<Rightarrow> jsv option" where
  "schema_field schema k = (case schema of JObj kvs \<Rightarrow> map_of kvs k | _ \<Rightarrow> None)"

type_synonym collectors = "string list \<times> string list"

text \<open>Sequencing: the rest of a function body runs only when the call before it
  returned; a throw or an exhausted fuel ends the body.\<close>

definition and_then :: "'a outcome \<Rightarrow> ('a \<Rightarrow> 'b outcome) \<Rightarrow> 'b outcome" where
  "and_then m f = (case m of Returns x \<Rightarrow> f x | Throws e \<Rightarrow> Throws e | OutOfFuel \<Rightarrow> OutOfFuel)"

definition or_throw :: "error + 'a \<Rightarrow> 'a outcome" where
  "or_throw r = (case r of Inl e \<Rightarrow> Throws e | Inr x \<Rightarrow> Returns x)"

text \<open>\<open>xs.forEach\<close> and \<open>for ... of\<close> over a list, threading the two collectors (errors,
  warnings).\<close>

fun for_each :: "('a \<Rightarrow> collectors \<Rightarrow> collectors outcome) \<Rightarrow> 'a list \<Rightarrow> collectors \<Rightarrow> collectors outcome" where
  "for_each f [] acc = Returns acc"
| "for_each f (x # xs) acc = and_then (f x acc) (for_each f xs)"

text \<open>\<open>schemas.some(s => ...)\<close>: each alternative is validated with collectors of its own;
  the first one that leaves no error ends the search.\<close>

fun some_match :: "(jsv \<Rightarrow> collectors outcome) \<Rightarrow> jsv list \<Rightarrow> bool outcome" where
  "some_match f [] = Returns False"
| "some_match f (s # ss) =
     and_then (f s) (\<lambda>(tempErrors, tempWarnings). if tempErrors = [] then Returns True else some_match f ss)"

definition no_match_message :: "string \<Rightarrow> string" where
  "no_match_message path = path @ '': value doesn'' @ [CHR 0x27] @ ''t match any of the expected schemas''"

definition type_message :: "string \<Rightarrow> string \<Rightarrow> string \<Rightarrow> string" where
  "type_message path expected actualType = path @ '': expected '' @ expected @ '', got '' @ actualType"

definition required_message :: "string \<Rightarrow> string \<Rightarrow> string" where
  "required_message path req = path @ '': missing required field '' @ [CHR 0x27] @ req @ [CHR 0x27]"

definition unknown_message :: "string \<Rightarrow> string \<Rightarrow> string" where
  "unknown_message path key = path @ ''.'' @ key @ '': field not defined in schema (may be undocumented)''"

text \<open>\<open>expectedTypes.map(t => t === 'integer' || t === 'int' ? 'number' : t)\<close>.\<close>

definition normalize_type :: "jsv \<Rightarrow> jsv" where
  "normalize_type t = (if t = JStr ''integer'' \<or> t = JStr ''int'' then JStr ''number'' else t)"

definition expectedTypes :: "jsv \<Rightarrow> jsv list" where
  "expectedTypes t = (case t of JArr ts \<Rightarrow> ts | _ \<Rightarrow> [t])"

text \<open>The check of the required names: one error for each name that is not \<open>in\<close> the
  object. \<open>in\<close> turns the name into a property key, and the message prints it: a name that
  cannot be printed throws.\<close>

definition check_required :: "string \<Rightarrow> jsv \<Rightarrow> jsv list \<Rightarrow> string list \<Rightarrow> error + string list" where
  "check_required path obj reqs errors =
     map_result (\<lambda>keys. errors @ map (required_message path) (filter (\<lambda>key. \<not> has_property obj key) keys))
       (all_or_throw (map to_string reqs))"

text \<open>The check for unknown fields: \<open>key in schema.properties\<close> throws when the properties are
  a primitive, at the first key of the object.\<close>

definition check_unknown :: "string \<Rightarrow> jsv \<Rightarrow> jsv \<Rightarrow> string list \<Rightarrow> error + string list" where
  "check_unknown path obj properties warnings =
     (if object_keys obj = [] then Inr warnings
      else if \<not> is_object properties then Inl TypeError
      else Inr (warnings @ map (unknown_message path)
                  (filter (\<lambda>key. \<not> has_property properties key) (object_keys obj))))"

text \<open>
  \<open>validateValueAgainstSchema\<close>. The two arrays the source pushes to are passed in and
  returned. Reading a field of a \<open>null\<close> schema throws, as does calling \<open>replace\<close> on a
  \<open>$ref\<close> that is not a string, \<open>some\<close> on a union that is not an array, iterating an
  \<open>allOf\<close> or a \<open>required\<close> that is not iterable, and printing a \<open>type\<close> or a required
  name that cannot be printed.
\<close>

fun validateValueAgainstSchema ::
    "nat \<Rightarrow> jsv \<Rightarrow> jsv \<Rightarrow> jsv \<Rightarrow> string \<Rightarrow> collectors \<Rightarrow> collectors outcome" where
  "validateValueAgainstSchema 0 val schema spec path acc = OutOfFuel"
| "validateValueAgainstSchema (Suc n) val schema spec path (errors, warnings) =
     (if schema = JNull then Throws TypeError
      else if truthy_opt (schema_field schema ''$ref'') then
        (case schema_field schema ''$ref'' of
           Some (JStr ref) \<Rightarrow>
             (if truthy (resolveRef ref spec)
              then validateValueAgainstSchema n val (resolveRef ref spec) spec path (errors, warnings)
              else Returns (errors, warnings))
         | _ \<Rightarrow> Throws TypeError)
      else if truthy_opt (schema_field schema ''oneOf'') \<or> truthy_opt (schema_field schema ''anyOf'') then
        (case (if truthy_opt (schema_field schema ''oneOf'') then schema_field schema ''oneOf''
               else schema_field schema ''anyOf'') of
           Some (JArr schemas) \<Rightarrow>
             and_then (some_match (\<lambda>s. validateValueAgainstSchema n val s spec path ([], [])) schemas)
               (\<lambda>matches. Returns (errors,
                  if \<not> matches \<and> 0 < length schemas then warnings @ [no_match_message path] else warnings))
         | _ \<Rightarrow> Throws TypeError)
      else if truthy_opt (schema_field schema ''allOf'') then
        and_then (or_throw (iterate (the (schema_field schema ''allOf''))))
          (\<lambda>schemas. for_each (\<lambda>s. validateValueAgainstSchema n val s spec path) schemas (errors, warnings))
      else if truthy_opt (schema_field schema ''type'')
              \<and> JStr (getTypeOf val) \<notin> set (map normalize_type (expectedTypes (the (schema_field schema ''type''))))
      then (if getTypeOf val \<noteq> ''null''
            then and_then (or_throw (to_string (the (schema_field schema ''type''))))
                   (\<lambda>expected. Returns (errors @ [type_message path expected (getTypeOf val)], warnings))
            else Returns (errors, warnings))
      else
        and_then
          (if schema_field schema ''type'' = Some (JStr ''array'') \<and> isArray val
                \<and> truthy_opt (schema_field schema ''items'')
           then for_each (\<lambda>(index, item).
                    validateValueAgainstSchema n item (the (schema_field schema ''items'')) spec
                      (path @ ''['' @ index @ '']''))
                  (object_entries val) (errors, warnings)
           else Returns (errors, warnings))
          (\<lambda>(errors1, warnings1).
             if schema_field schema ''type'' = Some (JStr ''object'') \<and> js_typeof val = ''object'' \<and> val \<noteq> JNull
                  \<and> truthy_opt (schema_field schema ''properties'')
             then
               and_then (or_throw (if truthy_opt (schema_field schema ''required'')
                                   then iterate (the (schema_field schema ''required'')) else Inr []))
                 (\<lambda>reqs.
                    and_then (or_throw (check_required path val reqs errors1))
                      (\<lambda>checked.
                         and_then
                           (for_each (\<lambda>(key, propSchema).
                                if has_property val key
                                then validateValueAgainstSchema n (the (get_property val key)) propSchema spec
                                       (path @ ''.'' @ key)
                                else Returns)
                              (object_entries (the (schema_field schema ''properties'')))
                              (checked, warnings1))
                           (\<lambda>(errors2, warnings2).
                              if \<not> truthy_opt (schema_field schema ''additionalProperties'')
                              then and_then
                                     (or_throw (check_unknown path val (the (schema_field schema ''properties'')) warnings2))
                                     (\<lambda>warnings3. Returns (errors2, warnings3))
                              else Returns (errors2, warnings2))))
             else Returns (errors1, warnings1)))"

text \<open>More fuel never changes an outcome that was reached: \<open>below a b\<close> says that \<open>b\<close> is
  \<open>a\<close>, or \<open>a\<close> ran out of fuel.\<close>

definition below :: "'a outcome \<Rightarrow> 'a outcome \<Rightarrow> bool" where
  "below a b = (a = OutOfFuel \<or> a = b)"

text \<open>
  The schemas a call of the validator on a node calls itself with. On the same value: the
  node a truthy \<open>$ref\<close> resolves to, else the alternatives of a union, else the members of
  \<open>allOf\<close>. On a part of the value (an element of an array, the value of a property): the
  \<open>items\<close> of an array node and the schemas under the \<open>properties\<close> of an object node.
\<close>

definition same_value_steps :: "jsv \<Rightarrow> jsv \<Rightarrow> jsv list" where
  "same_value_steps spec schema =
     (if truthy_opt (schema_field schema ''$ref'') then
        (case schema_field schema ''$ref'' of
           Some (JStr ref) \<Rightarrow> if truthy (resolveRef ref spec) then [resolveRef ref spec] else []
         | _ \<Rightarrow> [])
      else if truthy_opt (schema_field schema ''oneOf'') \<or> truthy_opt (schema_field schema ''anyOf'') then
        (case (if truthy_opt (schema_field schema ''oneOf'') then schema_field schema ''oneOf''
               else schema_field schema ''anyOf'') of
           Some (JArr schemas) \<Rightarrow> schemas
         | _ \<Rightarrow> [])
      else if truthy_opt (schema_field schema ''allOf'') then
        (case iterate (the (schema_field schema ''allOf'')) of Inr schemas \<Rightarrow> schemas | Inl e \<Rightarrow> [])
      else [])"

definition sub_value_steps :: "jsv \<Rightarrow> jsv list" where
  "sub_value_steps schema =
     (if truthy_opt (schema_field schema ''$ref'') \<or> truthy_opt (schema_field schema ''oneOf'')
          \<or> truthy_opt (schema_field schema ''anyOf'') \<or> truthy_opt (schema_field schema ''allOf'')
      then []
      else (if schema_field schema ''type'' = Some (JStr ''array'') \<and> truthy_opt (schema_field schema ''items'')
            then [the (schema_field schema ''items'')] else [])
         @ (if schema_field schema ''type'' = Some (JStr ''object'') \<and> truthy_opt (schema_field schema ''properties'')
            then object_values (the (schema_field schema ''properties'')) else []))"

text \<open>
  \<open>chain_ends spec schema\<close>: every chain of calls on the same value that starts at the
  node ends (a derivation is finite). A node that reaches itself through \<open>$ref\<close>, union
  and \<open>allOf\<close> steps alone has no derivation; a node that reaches itself through \<open>items\<close>
  or \<open>properties\<close> only, a recursive data type, has one.
\<close>

inductive chain_ends :: "jsv \<Rightarrow> jsv \<Rightarrow> bool" for spec :: jsv where
  chain_step: "(\<And>s. s \<in> set (same_value_steps spec schema) \<Longrightarrow> chain_ends spec s) \<Longrightarrow> chain_ends spec schema"

text \<open>\<open>visits spec schema node\<close>: validating some value against \<open>schema\<close> can call the
  validator with \<open>node\<close>.\<close>

inductive visits :: "jsv \<Rightarrow> jsv \<Rightarrow> jsv \<Rightarrow> bool" for spec :: jsv and schema :: jsv where
  visits_start: "visits spec schema schema"
| visits_step:
    "visits spec schema node \<Longrightarrow> s \<in> set (same_value_steps spec node @ sub_value_steps node)
     \<Longrightarrow> visits spec schema s"

text \<open>
  The shape of a node on which the validator does not throw. The \<open>Schema\<close> interface
  declares more (a \<open>$ref\<close> is a string, a union and \<open>allOf\<close> are arrays of schemas, \<open>type\<close>
  is a string or an array of strings, \<open>required\<close> an array of strings and \<open>properties\<close> an
  object); what the code needs is that the node is not \<open>null\<close>, that a truthy \<open>$ref\<close> is a
  string, else that the union is an array, else that \<open>allOf\<close> is iterable, else that \<open>type\<close>
  can be printed and, on an object node with properties, that \<open>required\<close> is iterable, its
  names can be printed and \<open>properties\<close> is an object.
\<close>

definition printable :: "jsv \<Rightarrow> bool" where
  "printable v = (case to_string v of Inr s \<Rightarrow> True | Inl e \<Rightarrow> False)"

definition declared_shape :: "jsv \<Rightarrow> bool" where
  "declared_shape schema =
     (schema \<noteq> JNull \<and>
      (if truthy_opt (schema_field schema ''$ref'') then
         (case schema_field schema ''$ref'' of Some (JStr ref) \<Rightarrow> True | _ \<Rightarrow> False)
       else if truthy_opt (schema_field schema ''oneOf'') \<or> truthy_opt (schema_field schema ''anyOf'') then
         (case (if truthy_opt (schema_field schema ''oneOf'') then schema_field schema ''oneOf''
                else schema_field schema ''anyOf'') of
            Some (JArr schemas) \<Rightarrow> True
          | _ \<Rightarrow> False)
       else if truthy_opt (schema_field schema ''allOf'') then
         (case iterate (the (schema_field schema ''allOf'')) of Inr schemas \<Rightarrow> True | Inl e \<Rightarrow> False)
       else
         (truthy_opt (schema_field schema ''type'') \<longrightarrow> printable (the (schema_field schema ''type'')))
         \<and> (schema_field schema ''type'' = Some (JStr ''object'') \<and> truthy_opt (schema_field schema ''properties'')
              \<longrightarrow> is_object (the (schema_field schema ''properties''))
                \<and> (truthy_opt (schema_field schema ''required'')
                     \<longrightarrow> (case iterate (the (schema_field schema ''required'')) of
                            Inr reqs \<Rightarrow> list_all printable reqs
                          | Inl e \<Rightarrow> False)))))"

text \<open>A measure of values that goes down from an object or an array to everything a
  property read gives: an element, an own value, the length, an inherited method, the
  prototype.\<close>

fun vrank :: "jsv \<Rightarrow> nat" where
  "vrank (JArr xs) = 3 + sum_list (map vrank xs)"
| "vrank (JObj kvs) = 3 + sum_list (map (\<lambda>p. vrank (snd p)) kvs)"
| "vrank JArrayPrototype = 2"
| "vrank JObjectPrototype = 1"
| "vrank v = 0"

text \<open>A document whose only schema points at itself, and a schema that points at it.\<close>

definition cyclic_ref :: jsv where
  "cyclic_ref = JObj [(''$ref'', JStr ''#/components/schemas/A'')]"

definition cyclic_spec :: jsv where
  "cyclic_spec = JObj [(''paths'', JObj []), (''components'', JObj [(''schemas'', JObj [(''A'', cyclic_ref)])])]"

text \<open>The depth from which a value is validated against a schema to the end, whatever
  the path and the collectors.\<close>

definition returns_from :: "nat \<Rightarrow> jsv \<Rightarrow> jsv \<Rightarrow> jsv \<Rightarrow> bool" where
  "returns_from n spec val schema =
     (\<forall>m \<ge> n. \<forall>path acc. \<exists>r. validateValueAgainstSchema m val schema spec path acc = Returns r)"

text \<open>The property names a node declares, and the names it requires (as the keys \<open>in\<close>
  looks up; a name that cannot be printed is no key).\<close>

definition declared_keys :: "jsv \<Rightarrow> string list" where
  "declared_keys schema = (case schema_field schema ''properties'' of Some p \<Rightarrow> object_keys p | None \<Rightarrow> [])"

definition required_keys :: "jsv \<Rightarrow> string list" where
  "required_keys schema =
     (case schema_field schema ''required'' of
        Some r \<Rightarrow>
          (case iterate r of
             Inr reqs \<Rightarrow> concat (map (\<lambda>req. case to_string req of Inr key \<Rightarrow> [key] | Inl e \<Rightarrow> []) reqs)
           | Inl e \<Rightarrow> [])
      | None \<Rightarrow> [])"

text \<open>Sample schemas and a sample document.\<close>

definition string_schema :: jsv where
  "string_schema = JObj [(''type'', JStr ''string'')]"

definition number_schema :: jsv where
  "number_schema = JObj [(''type'', JStr ''number'')]"

definition union_schema :: jsv where
  "union_schema = JObj [(''oneOf'', JArr [string_schema, number_schema])]"

definition pet_schema :: jsv where
  "pet_schema =
     JObj [(''type'', JStr ''object''),
           (''properties'', JObj [(''name'', string_schema)]),
           (''required'', JArr [JStr ''name''])]"

definition open_pet_schema :: jsv where
  "open_pet_schema =
     JObj [(''type'', JStr ''object''),
           (''properties'', JObj [(''name'', string_schema)]),
           (''additionalProperties'', number_schema)]"

definition pet_ref :: jsv where
  "pet_ref = JObj [(''$ref'', JStr ''#/components/schemas/Pet'')]"

definition pet_spec :: jsv where
  "pet_spec = JObj [(''paths'', JObj []), (''components'', JObj [(''schemas'', JObj [(''Pet'', pet_schema)])])]"

text \<open>A recursive data type: a tree is an array of trees. The schema reaches itself, but
  only through \<open>items\<close>.\<close>

definition tree_schema :: jsv where
  "tree_schema = JObj [(''type'', JStr ''array''), (''items'', JObj [(''$ref'', JStr ''#/components/schemas/Tree'')])]"

definition tree_ref :: jsv where
  "tree_ref = JObj [(''$ref'', JStr ''#/components/schemas/Tree'')]"

definition tree_spec :: jsv where
  "tree_spec = JObj [(''paths'', JObj []), (''components'', JObj [(''schemas'', JObj [(''Tree'', tree_schema)])])]"

section \<open>The structural validator's pointer check (validate.ts)\<close>

record stats =
  st_paths :: nat
  st_operations :: nat
  st_schemas :: nat
  st_parameters :: nat

record validationResult =
  vr_valid :: bool
  vr_errors :: "string list"
  vr_warnings :: "string list"
  vr_stats :: stats

text \<open>\<open>refs.add(r)\<close> on a \<open>Set\<close>: insertion order, no duplicates.\<close>

definition set_add :: "string \<Rightarrow> string list \<Rightarrow> string list" where
  "set_add r refs = (if r \<in> set refs then refs else refs @ [r])"

text \<open>\<open>collectRefs\<close>: every \<open>$ref\<close> that holds a string, in the order a walk over the own
  properties meets them.\<close>

fun collectRefs :: "jsv \<Rightarrow> string list \<Rightarrow> string list" where
  "collectRefs (JObj kvs) refs =
     fold (\<lambda>v. collectRefs v) (map snd kvs)
       (case map_of kvs ''$ref'' of Some (JStr r) \<Rightarrow> set_add r refs | _ \<Rightarrow> refs)"
| "collectRefs (JArr xs) refs = fold (\<lambda>v. collectRefs v) xs refs"
| "collectRefs v refs = refs"

definition collect_optional :: "jsv option \<Rightarrow> string list \<Rightarrow> string list" where
  "collect_optional v refs = (case v of None \<Rightarrow> refs | Some x \<Rightarrow> collectRefs x refs)"

definition schemas_prefix :: string where
  "schemas_prefix = ''#/components/schemas/''"

definition parameters_prefix :: string where
  "parameters_prefix = ''#/components/parameters/''"

definition unresolved_message :: "string \<Rightarrow> string" where
  "unresolved_message ref = ''Unresolved $ref: '' @ ref"

definition external_message :: "string \<Rightarrow> string" where
  "external_message ref = ''External $ref (not validated): '' @ ref"

text \<open>\<open>result.errors.push(...); result.valid = false\<close>.\<close>

definition report_unresolved :: "string \<Rightarrow> validationResult \<Rightarrow> validationResult" where
  "report_unresolved ref result =
     result\<lparr>vr_errors := vr_errors result @ [unresolved_message ref], vr_valid := False\<rparr>"

text \<open>The body of the loop over the collected pointers.\<close>

definition check_ref :: "jsv \<Rightarrow> jsv \<Rightarrow> string \<Rightarrow> validationResult \<Rightarrow> validationResult" where
  "check_ref schemas parameters ref result =
     (if startsWith ref schemas_prefix then
        (if \<not> truthy_opt (get_property schemas (replace_first schemas_prefix [] ref))
         then report_unresolved ref result else result)
      else if startsWith ref parameters_prefix then
        (if \<not> truthy_opt (get_property parameters (replace_first parameters_prefix [] ref))
         then report_unresolved ref result else result)
      else if \<not> startsWith ref ''#/'' then
        result\<lparr>vr_warnings := vr_warnings result @ [external_message ref]\<rparr>
      else result)"

text \<open>\<open>spec.components?.schemas || {}\<close> and its like.\<close>

definition components_section :: "jsv \<Rightarrow> string \<Rightarrow> jsv" where
  "components_section spec name =
     (case get_property spec ''components'' of
        None \<Rightarrow> JObj []
      | Some components \<Rightarrow>
          if components = JNull then JObj []
          else (case get_property components name of
                  None \<Rightarrow> JObj []
                | Some section \<Rightarrow> if truthy section then section else JObj []))"

text \<open>\<open>validateRefs\<close>. Reading \<open>spec.components\<close> from a \<open>null\<close> document throws. The sections
  are declared as objects; of a section that is a string, a number or \<open>true\<close> the model
  does not render the members its wrapper inherits, and the theorems below are stated for
  sections of the declared shape.\<close>

definition validateRefs :: "jsv \<Rightarrow> validationResult \<Rightarrow> error + validationResult" where
  "validateRefs spec result =
     (if spec = JNull then Inl TypeError
      else
        (let schemas = components_section spec ''schemas'';
             parameters = components_section spec ''parameters'';
             result1 = result\<lparr>vr_stats := (vr_stats result)
                         \<lparr>st_schemas := length (object_keys schemas),
                          st_parameters := length (object_keys parameters)\<rparr>\<rparr>;
             refs = collect_optional (get_property spec ''components'')
                      (collect_optional (get_property spec ''paths'') [])
         in Inr (fold (check_ref schemas parameters) refs result1)))"

text \<open>The collected pointers of a document, and the shape of its two sections.\<close>

definition collected_refs :: "jsv \<Rightarrow> string list" where
  "collected_refs spec =
     collect_optional (get_property spec ''components'') (collect_optional (get_property spec ''paths'') [])"

definition sections_declared :: "jsv \<Rightarrow> bool" where
  "sections_declared spec =
     (is_object (components_section spec ''schemas'') \<and> is_object (components_section spec ''parameters''))"

text \<open>A pointer that the check reports as unresolved: it points into the named schemas or
  the named parameters, and the name read from that section is missing or falsy.\<close>

definition unresolved_in_components :: "jsv \<Rightarrow> string \<Rightarrow> bool" where
  "unresolved_in_components spec ref =
     ((startsWith ref schemas_prefix
         \<and> \<not> truthy_opt (get_property (components_section spec ''schemas'') (drop (length schemas_prefix) ref)))
      \<or> (\<not> startsWith ref schemas_prefix \<and> startsWith ref parameters_prefix
         \<and> \<not> truthy_opt (get_property (components_section spec ''parameters'')
                            (drop (length parameters_prefix) ref))))"

definition external_ref :: "string \<Rightarrow> bool" where
  "external_ref ref =
     (\<not> startsWith ref schemas_prefix \<and> \<not> startsWith ref parameters_prefix \<and> \<not> startsWith ref ''#/'')"

definition empty_result :: validationResult where
  "empty_result =
     \<lparr>vr_valid = True, vr_errors = [], vr_warnings = [],
      vr_stats = \<lparr>st_paths = 0, st_operations = 0, st_schemas = 0, st_parameters = 0\<rparr>\<rparr>"

text \<open>Sample documents: one whose operation points outside the document and into a
  section the check does not look at, one with a dangling and a resolving schema pointer.\<close>

definition unchecked_refs_spec :: jsv where
  "unchecked_refs_spec =
     JObj [(''paths'', JObj [(''/pets'', JObj [(''get'', JObj [(''responses'', JObj
              [(''200'', JObj [(''$ref'', JStr ''other.json#/Pet'')]),
               (''404'', JObj [(''$ref'', JStr ''#/responses/NotFound'')])])])])]),
           (''components'', JObj [(''schemas'', JObj [])])]"

definition dangling_spec :: jsv where
  "dangling_spec =
     JObj [(''paths'', JObj [(''/pets'', JObj [(''get'', JObj [(''responses'', JObj
              [(''200'', JObj [(''$ref'', JStr ''#/components/schemas/Pet'')]),
               (''404'', JObj [(''$ref'', JStr ''#/components/schemas/Missing'')])])])])]),
           (''components'', JObj [(''schemas'', JObj [(''Pet'', pet_schema)])])]"

text \<open>Every string held by a \<open>$ref\<close> property anywhere in a value.\<close>

fun ref_strings :: "jsv \<Rightarrow> string set" where
  "ref_strings (JObj kvs) =
     (case map_of kvs ''$ref'' of Some (JStr r) \<Rightarrow> {r} | _ \<Rightarrow> {}) \<union> (\<Union>v \<in> set (map snd kvs). ref_strings v)"
| "ref_strings (JArr xs) = (\<Union>v \<in> set xs. ref_strings v)"
| "ref_strings v = {}"

definition ref_strings_optional :: "jsv option \<Rightarrow> string set" where
  "ref_strings_optional v = (case v of None \<Rightarrow> {} | Some x \<Rightarrow> ref_strings x)"

section \<open>The converter (convert.ts)\<close>









lemma jrank_indexed: "(k, v) \<in> set (indexed i xs) \<Longrightarrow> v \<in> set xs"
  by (induction xs arbitrary: i) auto
























section \<open>The fixture generator (generate.ts)\<close>

text \<open>
  The interfaces of generate.ts as records; an example is any JSON value. The chain
  \<open>content?.['application/json']?.schema\<close> is one optional field here: it is absent when any
  link of the chain is.
\<close>

record g_schema =
  gs_example :: "jsv option"
  gs_amf_examples :: "(string \<times> jsv) list option"

record g_response =
  gr_description :: string
  gr_schema :: "g_schema option"

record g_operation =
  g_operationId :: string
  g_tags :: "string list option"
  g_request_example :: "jsv option"
  g_responses :: "(string \<times> g_response) list option"

record g_pathItem =
  gp_get :: "g_operation option"
  gp_post :: "g_operation option"
  gp_put :: "g_operation option"
  gp_delete :: "g_operation option"
  gp_patch :: "g_operation option"

record generateResult =
  generated :: nat
  skipped :: nat
  operations :: "string list"

text \<open>\<open>toKebabCase\<close>: a hyphen between a lower-case letter and the upper-case letter after
  it, then a hyphen after an upper-case letter that is followed by an upper-case and a
  lower-case letter, then everything in lower case.\<close>

definition is_lower :: "char \<Rightarrow> bool" where
  "is_lower c = (c \<in> set lower_chars)"

definition is_upper :: "char \<Rightarrow> bool" where
  "is_upper c = (c \<in> set upper_chars)"

fun hyphen_lower_upper :: "string \<Rightarrow> string" where
  "hyphen_lower_upper (a # b # rest) =
     (if is_lower a \<and> is_upper b then a # CHR ''-'' # hyphen_lower_upper (b # rest)
      else a # hyphen_lower_upper (b # rest))"
| "hyphen_lower_upper s = s"

fun hyphen_upper_word :: "string \<Rightarrow> string" where
  "hyphen_upper_word (a # b # c # rest) =
     (if is_upper a \<and> is_upper b \<and> is_lower c then a # CHR ''-'' # hyphen_upper_word (b # c # rest)
      else a # hyphen_upper_word (b # c # rest))"
| "hyphen_upper_word s = s"

definition toKebabCase :: "string \<Rightarrow> string" where
  "toKebabCase str = toLowerCase (hyphen_upper_word (hyphen_lower_upper str))"

text \<open>The file-name part of an example name: lower case, every run of other characters
  than \<open>a-z0-9\<close> replaced by one hyphen, a hyphen at the start and one at the end removed.\<close>

definition is_alnum :: "char \<Rightarrow> bool" where
  "is_alnum c = (c \<in> set lower_chars \<or> c \<in> set digit_chars)"

fun hyphenate_runs :: "bool \<Rightarrow> string \<Rightarrow> string" where
  "hyphenate_runs in_run [] = []"
| "hyphenate_runs in_run (c # cs) =
     (if is_alnum c then c # hyphenate_runs False cs
      else if in_run then hyphenate_runs True cs
      else CHR ''-'' # hyphenate_runs True cs)"

definition strip_hyphens :: "string \<Rightarrow> string" where
  "strip_hyphens s =
     (let t = (case s of c # cs \<Rightarrow> if c = CHR ''-'' then cs else s | [] \<Rightarrow> [])
      in if t \<noteq> [] \<and> last t = CHR ''-'' then butlast t else t)"

definition safeName :: "string \<Rightarrow> string" where
  "safeName name = strip_hyphens (hyphenate_runs False (toLowerCase name))"

text \<open>\<open>String(parseInt(statusCode, 10))\<close>, \<open>None\<close> when the result is \<open>NaN\<close>: after leading
  white space and a sign, the leading digits without their leading zeros. (Beyond 15
  digits the engine rounds the number to a double before printing it; the model prints
  the digits as they are.)\<close>

definition is_space :: "char \<Rightarrow> bool" where
  "is_space c = (c \<in> {CHR '' '', CHR 0x09, CHR 0x0A, CHR 0x0B, CHR 0x0C, CHR 0x0D})"

definition is_digit :: "char \<Rightarrow> bool" where
  "is_digit c = (c \<in> set digit_chars)"

definition status_text :: "string \<Rightarrow> string option" where
  "status_text statusCode =
     (let s = dropWhile is_space statusCode;
          negative = (s \<noteq> [] \<and> hd s = CHR ''-'');
          unsigned = (if s \<noteq> [] \<and> (hd s = CHR ''-'' \<or> hd s = CHR ''+'') then tl s else s);
          digits = takeWhile is_digit unsigned;
          significant = dropWhile (\<lambda>c. c = CHR ''0'') digits
      in if digits = [] then None
         else if significant = [] then Some ''0''
         else Some ((if negative then ''-'' else []) @ significant))"

text \<open>\<open>extractExampleValue\<close>: the \<open>value\<close> of an example that wraps one.\<close>

definition extractExampleValue :: "jsv \<Rightarrow> jsv" where
  "extractExampleValue example =
     (if truthy example \<and> js_typeof example = ''object'' \<and> has_property example ''value''
      then the (get_property example ''value'') else example)"

definition requestFixture :: "string \<Rightarrow> jsv \<Rightarrow> jsv" where
  "requestFixture operation_id body =
     JObj [(''_meta'', JObj [(''description'', JStr (''Request body for '' @ operation_id))]), (''body'', body)]"

definition responseFixture :: "string \<Rightarrow> string \<Rightarrow> jsv \<Rightarrow> jsv" where
  "responseFixture description status body =
     JObj [(''_meta'', JObj [(''description'', JStr description), (''status'', JNum status),
                             (''headers'', JObj [(''Content-Type'', JStr ''application/json'')])]),
           (''body'', body)]"

text \<open>The fixtures one operation can give, as file name and content, in the order the
  source meets them: the request example, then for each response with a numeric status
  and a schema its named examples (one name: \<open>response.STATUS.json\<close>; otherwise
  \<open>response.STATUS.NAME.json\<close> each), or else its single example.\<close>

definition response_candidates :: "string \<Rightarrow> string \<times> g_response \<Rightarrow> (string \<times> jsv) list" where
  "response_candidates operation_id entry =
     (case status_text (fst entry) of
        None \<Rightarrow> []
      | Some status \<Rightarrow>
          (case gr_schema (snd entry) of
             None \<Rightarrow> []
           | Some schema \<Rightarrow>
               (case gs_amf_examples schema of
                  Some examples \<Rightarrow>
                    (case examples of
                       [(name, example)] \<Rightarrow>
                         [(''response.'' @ status @ ''.json'',
                           responseFixture name status (extractExampleValue example))]
                     | _ \<Rightarrow>
                         map (\<lambda>(name, example).
                                (''response.'' @ status @ ''.'' @ safeName name @ ''.json'',
                                 responseFixture name status (extractExampleValue example)))
                             examples)
                | None \<Rightarrow>
                    (if truthy_opt (gs_example schema)
                     then [(''response.'' @ status @ ''.json'',
                            responseFixture
                              (if gr_description (snd entry) \<noteq> [] then gr_description (snd entry)
                               else status @ '' response for '' @ operation_id)
                              status (extractExampleValue (the (gs_example schema))))]
                     else []))))"

definition candidates :: "g_operation \<Rightarrow> (string \<times> jsv) list" where
  "candidates operation =
     (if truthy_opt (g_request_example operation)
      then [(''request.json'', requestFixture (g_operationId operation)
                                 (extractExampleValue (the (g_request_example operation))))]
      else [])
     @ (case g_responses operation of
          None \<Rightarrow> []
        | Some responses \<Rightarrow> concat (map (response_candidates (g_operationId operation)) responses))"

text \<open>
  The file system: the fixture directories, each with its files. \<open>PATHS\<close> and \<open>writeJson\<close>
  live in a module that is not part of the sources at hand, so the directory of an
  operation, \<open>join(PATHS.fixtures, tag.toLowerCase(), operationDir)\<close>, is a parameter
  \<open>dir_of\<close> of the model, any function of the two names, and the path of a file is its
  directory and its name (no file name has a slash in it). Directories hold files only.
\<close>

type_synonym 'd filesystem = "'d \<Rightarrow> (string \<times> jsv) list option"

definition getExistingFixtures :: "'d filesystem \<Rightarrow> 'd \<Rightarrow> string list" where
  "getExistingFixtures fs fixtureDir = (case fs fixtureDir of None \<Rightarrow> [] | Some files \<Rightarrow> map fst files)"

text \<open>\<open>generateOperationFixtures\<close>: a fixture whose file name is in the set of existing
  names is counted as skipped, every other one is pushed. The set is the one passed in: it
  is not updated while the fixtures are collected.\<close>

definition push_or_skip ::
    "string list \<Rightarrow> 'd \<Rightarrow> string \<times> jsv \<Rightarrow> (('d \<times> string) \<times> jsv) list \<times> nat \<Rightarrow> (('d \<times> string) \<times> jsv) list \<times> nat" where
  "push_or_skip existingFixtures baseDir file acc =
     (if fst file \<notin> set existingFixtures then (fst acc @ [((baseDir, fst file), snd file)], snd acc)
      else (fst acc, snd acc + 1))"

definition generateOperationFixtures ::
    "(string \<Rightarrow> string \<Rightarrow> 'd) \<Rightarrow> g_operation \<Rightarrow> string \<Rightarrow> string list \<Rightarrow> (('d \<times> string) \<times> jsv) list \<times> nat" where
  "generateOperationFixtures dir_of operation tag existingFixtures =
     (let operationDir = toKebabCase (g_operationId operation);
          baseDir = dir_of (toLowerCase tag) operationDir
      in fold (push_or_skip existingFixtures baseDir) (candidates operation) ([], 0))"

text \<open>Writing a file: \<open>mkdirSync(dir, {recursive: true})\<close> when the directory is missing, then
  \<open>writeJson(fixturePath, content)\<close>, which replaces the file of that name or adds one.\<close>

fun put_file :: "string \<Rightarrow> jsv \<Rightarrow> (string \<times> jsv) list \<Rightarrow> (string \<times> jsv) list" where
  "put_file name content [] = [(name, content)]"
| "put_file name content ((n, c) # files) =
     (if n = name then (n, content) # files else (n, c) # put_file name content files)"

definition write_fixture :: "('d \<times> string) \<times> jsv \<Rightarrow> 'd filesystem \<Rightarrow> 'd filesystem" where
  "write_fixture fixture fs =
     (let dir = fst (fst fixture)
      in fs(dir \<mapsto> put_file (snd (fst fixture)) (snd fixture)
                         (case fs dir of None \<Rightarrow> [] | Some files \<Rightarrow> files)))"

text \<open>The body of the loop of \<open>generate\<close> for one operation.\<close>

definition generate_operation ::
    "(string \<Rightarrow> string \<Rightarrow> 'd) \<Rightarrow> g_operation \<Rightarrow> 'd filesystem \<times> generateResult \<Rightarrow> 'd filesystem \<times> generateResult" where
  "generate_operation dir_of operation st =
     (let tag = (case g_tags operation of
                   Some (t # ts) \<Rightarrow> if t \<noteq> [] then t else ''misc''
                 | _ \<Rightarrow> ''misc'');
          operationDir = toKebabCase (g_operationId operation);
          fixtureDir = dir_of (toLowerCase tag) operationDir;
          existingFixtures = getExistingFixtures (fst st) fixtureDir;
          gen = generateOperationFixtures dir_of operation tag existingFixtures;
          result = (snd st)\<lparr>skipped := skipped (snd st) + snd gen\<rparr>
      in if fst gen \<noteq> []
         then (fold write_fixture (fst gen) (fst st),
               result\<lparr>operations := operations result @ [g_operationId operation],
                       generated := generated result + length (fst gen)\<rparr>)
         else (fst st, result))"

definition g_METHODS :: "(g_pathItem \<Rightarrow> g_operation option) list" where
  "g_METHODS = [gp_get, gp_post, gp_put, gp_delete, gp_patch]"

definition operations_of :: "(string \<times> g_pathItem) list \<Rightarrow> g_operation list" where
  "operations_of paths =
     concat (map (\<lambda>(path, pathItem).
                    concat (map (\<lambda>method. case method pathItem of None \<Rightarrow> [] | Some operation \<Rightarrow> [operation])
                                g_METHODS))
                 paths)"

definition generate ::
    "(string \<Rightarrow> string \<Rightarrow> 'd) \<Rightarrow> (string \<times> g_pathItem) list \<Rightarrow> 'd filesystem \<Rightarrow> 'd filesystem \<times> generateResult" where
  "generate dir_of paths fs =
     fold (generate_operation dir_of) (operations_of paths)
          (fs, \<lparr>generated = 0, skipped = 0, operations = []\<rparr>)"

text \<open>The file at a directory and a name, and the directory of an operation's fixtures.\<close>

definition file_at :: "'d filesystem \<Rightarrow> 'd \<Rightarrow> string \<Rightarrow> jsv option" where
  "file_at fs dir name = (case fs dir of None \<Rightarrow> None | Some files \<Rightarrow> map_of files name)"

definition fixture_dir :: "(string \<Rightarrow> string \<Rightarrow> 'd) \<Rightarrow> g_operation \<Rightarrow> 'd" where
  "fixture_dir dir_of operation =
     dir_of (toLowerCase (case g_tags operation of
                            Some (t # ts) \<Rightarrow> if t \<noteq> [] then t else ''misc''
                          | _ \<Rightarrow> ''misc''))
            (toKebabCase (g_operationId operation))"

text \<open>A spec with one operation whose two named examples give the same file name, and one
  with distinct names; directories are named \<open>tag/operation\<close>.\<close>

definition sample_dir_of :: "string \<Rightarrow> string \<Rightarrow> string" where
  "sample_dir_of tag operationDir = tag @ ''/'' @ operationDir"

definition no_operations :: g_pathItem where
  "no_operations = \<lparr>gp_get = None, gp_post = None, gp_put = None, gp_delete = None, gp_patch = None\<rparr>"

definition examples_operation :: "(string \<times> jsv) list \<Rightarrow> g_operation" where
  "examples_operation examples =
     \<lparr>g_operationId = ''getApp'', g_tags = Some [''Apps''], g_request_example = None,
      g_responses = Some [(''200'', \<lparr>gr_description = ''Success'',
                                       gr_schema = Some \<lparr>gs_example = None, gs_amf_examples = Some examples\<rparr>\<rparr>)]\<rparr>"

definition colliding_operation :: g_operation where
  "colliding_operation = examples_operation [(''Not found'', JStr ''first''), (''not-found'', JStr ''second'')]"

definition colliding_paths :: "(string \<times> g_pathItem) list" where
  "colliding_paths = [(''/apps/{appId}'', no_operations\<lparr>gp_get := Some colliding_operation\<rparr>)]"

definition sample_paths :: "(string \<times> g_pathItem) list" where
  "sample_paths =
     [(''/apps/{appId}'',
       no_operations\<lparr>gp_get := Some (examples_operation [(''Found'', JStr ''first''), (''Not found'', JStr ''second'')])\<rparr>)]"

definition hand_edited :: "string filesystem" where
  "hand_edited = Map.empty(''apps/get-app'' \<mapsto> [(''response.200.found.json'', JStr ''edited'')])"

lemma map_of_js_delete: "map_of (js_delete kvs k) k' = (if k' = k then None else map_of kvs k')"
  by (induction kvs) (auto simp: js_delete_def)

lemma keys_js_delete: "fst ` set (js_delete kvs k) = fst ` set kvs - {k}"
  by (induction kvs) (auto simp: js_delete_def)

lemma set_insert_index: "set (insert_index k v kvs) = insert (k, v) (set kvs)"
  by (induction kvs) (auto split: option.splits if_splits)

lemma keys_insert_index: "fst ` set (insert_index k v kvs) = insert k (fst ` set kvs)"
  by (simp add: set_insert_index)

lemma map_of_insert_index:
  "k \<notin> fst ` set kvs \<Longrightarrow> map_of (insert_index k v kvs) k' = (if k' = k then Some v else map_of kvs k')"
  by (induction kvs) (auto split: option.splits)

lemma keys_map_replace: "fst ` set (map (\<lambda>(k', v'). if k' = k then (k', v) else (k', v')) kvs) = fst ` set kvs"
  by (induction kvs) auto

lemma keys_js_set: "fst ` set (js_set kvs k v) = insert k (fst ` set kvs)"
proof (cases "k \<in> fst ` set kvs")
  case True
  then show ?thesis unfolding js_set_def using keys_map_replace[of k v kvs] by (simp add: insert_absorb)
next
  case False
  then show ?thesis unfolding js_set_def
    by (simp add: keys_insert_index)
qed

lemma map_of_map_replace:
  "map_of (map (\<lambda>(k', v'). if k' = k then (k', v) else (k', v')) kvs) k' =
     (if k' = k then map_option (\<lambda>_. v) (map_of kvs k) else map_of kvs k')"
  by (induction kvs) auto

lemma map_of_js_set: "map_of (js_set kvs k v) k' = (if k' = k then Some v else map_of kvs k')"
proof (cases "k \<in> fst ` set kvs")
  case True
  then obtain w where "map_of kvs k = Some w"
    by (metis map_of_eq_None_iff not_Some_eq)
  with True show ?thesis by (simp add: js_set_def map_of_map_replace)
next
  case False
  then have n: "map_of kvs k = None" by (simp add: map_of_eq_None_iff)
  show ?thesis
  proof (cases "is_index k")
    case False
    with \<open>k \<notin> fst ` set kvs\<close> have "js_set kvs k v = kvs @ [(k, v)]" by (simp add: js_set_def)
    with n show ?thesis by (cases "map_of kvs k'") (auto simp: map_add_def)
  next
    case True
    with \<open>k \<notin> fst ` set kvs\<close> have "js_set kvs k v = insert_index k v kvs" by (simp add: js_set_def)
    with \<open>k \<notin> fst ` set kvs\<close> show ?thesis by (simp add: map_of_insert_index)
  qed
qed

lemma canonical_not_composite: "\<not> is_composite (canonical_of c)"
  by (simp add: is_composite_def canonical_of_def)

lemma keysToRename_eq: "keysToRename codes = map (\<lambda>c. (c, canonical_of c)) (filter is_composite codes)"
proof (induction codes)
  case Nil
  show ?case by simp
next
  case (Cons c cs)
  consider "c = ''401/403''" | "c \<noteq> ''401/403''" "c = ''4xx/5xx'' \<or> c = ''4xx'' \<or> c = ''5xx''" | "\<not> is_composite c"
    unfolding is_composite_def by blast
  then show ?case
  proof cases
    case 1
    then show ?thesis using Cons.IH by (simp add: is_composite_def canonical_of_def)
  next
    case 2
    then show ?thesis using Cons.IH by (simp add: is_composite_def canonical_of_def)
  next
    case 3
    then have "keysToRename (c # cs) = keysToRename cs" by (simp add: is_composite_def)
    with 3 show ?thesis using Cons.IH by simp
  qed
qed

lemma rename_step_keys:
  "fst ` set (js_delete
          (case map_of rs new of
             None \<Rightarrow> (case map_of rs old of Some r \<Rightarrow> js_set rs new r | None \<Rightarrow> rs)
           | Some occupied \<Rightarrow> rs) old) \<subseteq> (fst ` set rs \<union> {new}) - {old}"
proof (cases "map_of rs new")
  case None
  then show ?thesis
    by (cases "map_of rs old") (auto simp: keys_js_delete keys_js_set)
next
  case (Some a)
  then show ?thesis by (auto simp: keys_js_delete)
qed

lemma rename_loop_keys:
  "snd ` set ks \<inter> fst ` set ks = {} \<Longrightarrow>
   fst ` set (fst (rename_loop opid ks (rs, lg))) \<subseteq> (fst ` set rs \<union> snd ` set ks) - fst ` set ks"
proof (induction ks arbitrary: rs lg)
  case Nil
  then show ?case by simp
next
  case (Cons p ks)
  obtain old new where p: "p = (old, new)" by (cases p)
  define rs1 where "rs1 = js_delete
          (case map_of rs new of
             None \<Rightarrow> (case map_of rs old of Some r \<Rightarrow> js_set rs new r | None \<Rightarrow> rs)
           | Some occupied \<Rightarrow> rs) old"
  define lg1 where "lg1 = lg @ [(''info'', normalized_message old new opid)]"
  have step: "rename_loop opid (p # ks) (rs, lg) = rename_loop opid ks (rs1, lg1)"
    unfolding p rs1_def lg1_def by simp
  have k1: "fst ` set rs1 \<subseteq> (fst ` set rs \<union> {new}) - {old}"
    unfolding rs1_def by (rule rename_step_keys)
  from Cons.prems p have disj: "snd ` set ks \<inter> fst ` set ks = {}" and old: "old \<notin> snd ` set ks" "old \<noteq> new"
    by auto
  have ih: "fst ` set (fst (rename_loop opid ks (rs1, lg1))) \<subseteq> (fst ` set rs1 \<union> snd ` set ks) - fst ` set ks"
    by (rule Cons.IH[OF disj])
  have sets: "fst ` set (p # ks) = insert old (fst ` set ks)" "snd ` set (p # ks) = insert new (snd ` set ks)"
    by (simp_all add: p)
  show ?case unfolding step sets using ih k1 old by blast
qed

lemma rename_loop_untouched:
  "k \<notin> fst ` set ks \<Longrightarrow> k \<notin> snd ` set ks \<Longrightarrow>
   map_of (fst (rename_loop opid ks (rs, lg))) k = map_of rs k"
proof (induction ks arbitrary: rs lg)
  case Nil
  then show ?case by simp
next
  case (Cons p ks)
  obtain old new where p: "p = (old, new)" by (cases p)
  with Cons.prems have "k \<noteq> old" "k \<noteq> new" "k \<notin> fst ` set ks" "k \<notin> snd ` set ks" by auto
  then show ?case unfolding p
    by (simp add: Cons.IH map_of_js_delete map_of_js_set split: option.splits)
qed

lemma rename_loop_occupied:
  "map_of rs n = Some r \<Longrightarrow> n \<notin> fst ` set ks \<Longrightarrow>
   map_of (fst (rename_loop opid ks (rs, lg))) n = Some r"
proof (induction ks arbitrary: rs lg)
  case Nil
  then show ?case by simp
next
  case (Cons p ks)
  obtain old new where p: "p = (old, new)" by (cases p)
  define rs1 where "rs1 = js_delete
          (case map_of rs new of
             None \<Rightarrow> (case map_of rs old of Some r \<Rightarrow> js_set rs new r | None \<Rightarrow> rs)
           | Some occupied \<Rightarrow> rs) old"
  from Cons.prems p have "n \<noteq> old" "n \<notin> fst ` set ks" by auto
  with Cons.prems(1) have "map_of rs1 n = Some r"
    unfolding rs1_def by (auto simp: map_of_js_delete map_of_js_set split: option.splits)
  then have "map_of (fst (rename_loop opid ks (rs1, lg @ [(''info'', normalized_message old new opid)]))) n = Some r"
    using \<open>n \<notin> fst ` set ks\<close> by (rule Cons.IH)
  then show ?case unfolding p by (simp add: rs1_def [symmetric])
qed

lemma rename_loop_log:
  "snd (rename_loop opid ks (rs, lg)) = lg @ map (\<lambda>(old, new). (''info'', normalized_message old new opid)) ks"
  by (induction ks arbitrary: rs lg) auto

lemma rename_loop_first:
  "map_of rs n = None \<Longrightarrow> distinct (map fst ks) \<Longrightarrow> snd ` set ks \<inter> fst ` set ks = {} \<Longrightarrow>
   n \<notin> fst ` set ks \<Longrightarrow> (\<forall>old \<in> fst ` set ks. map_of rs old \<noteq> None) \<Longrightarrow>
   map_of (fst (rename_loop opid ks (rs, lg))) n =
     (case filter (\<lambda>p. snd p = n) ks of [] \<Rightarrow> None | p # _ \<Rightarrow> map_of rs (fst p))"
proof (induction ks arbitrary: rs lg)
  case Nil
  then show ?case by simp
next
  case (Cons p ks)
  obtain old new where p: "p = (old, new)" by (cases p)
  define rs1 where "rs1 = js_delete
          (case map_of rs new of
             None \<Rightarrow> (case map_of rs old of Some r \<Rightarrow> js_set rs new r | None \<Rightarrow> rs)
           | Some occupied \<Rightarrow> rs) old"
  define lg1 where "lg1 = lg @ [(''info'', normalized_message old new opid)]"
  have step: "rename_loop opid (p # ks) (rs, lg) = rename_loop opid ks (rs1, lg1)"
    unfolding p rs1_def lg1_def by simp
  from Cons.prems p have facts: "n \<noteq> old" "n \<notin> fst ` set ks" "old \<notin> fst ` set ks" "distinct (map fst ks)"
    "snd ` set ks \<inter> fst ` set ks = {}" "old \<notin> snd ` set ks" "new \<notin> fst ` set ks" "old \<noteq> new"
    by auto
  from Cons.prems p obtain r where r: "map_of rs old = Some r" by auto
  show ?case
  proof (cases "new = n")
    case True
    with Cons.prems(1) r facts have "map_of rs1 n = Some r"
      unfolding rs1_def by (simp add: map_of_js_delete map_of_js_set)
    then have "map_of (fst (rename_loop opid ks (rs1, lg1))) n = Some r"
      using facts(2) by (rule rename_loop_occupied)
    with True r show ?thesis unfolding step by (simp add: p)
  next
    case False
    with Cons.prems(1) facts have n1: "map_of rs1 n = None"
      unfolding rs1_def by (auto simp: map_of_js_delete map_of_js_set split: option.splits)
    have pres: "\<forall>o' \<in> fst ` set ks. map_of rs1 o' \<noteq> None"
    proof
      fix o' assume o': "o' \<in> fst ` set ks"
      with facts have "o' \<noteq> old" by auto
      moreover from o' Cons.prems(5) have "map_of rs o' \<noteq> None" by auto
      ultimately show "map_of rs1 o' \<noteq> None"
        unfolding rs1_def by (auto simp: map_of_js_delete map_of_js_set split: option.splits)
    qed
    have same: "\<And>q. q \<in> set ks \<Longrightarrow> map_of rs1 (fst q) = map_of rs (fst q)"
    proof -
      fix q assume "q \<in> set ks"
      with facts have "fst q \<noteq> old" "fst q \<noteq> new" by auto
      then show "map_of rs1 (fst q) = map_of rs (fst q)"
        unfolding rs1_def by (auto simp: map_of_js_delete map_of_js_set split: option.splits)
    qed
    have "map_of (fst (rename_loop opid ks (rs1, lg1))) n =
        (case filter (\<lambda>p. snd p = n) ks of [] \<Rightarrow> None | p # _ \<Rightarrow> map_of rs1 (fst p))"
      using n1 facts(4) facts(5) facts(2) pres by (rule Cons.IH)
    also have "\<dots> = (case filter (\<lambda>p. snd p = n) ks of [] \<Rightarrow> None | p # _ \<Rightarrow> map_of rs (fst p))"
    proof (cases "filter (\<lambda>p. snd p = n) ks")
      case Nil
      then show ?thesis by simp
    next
      case (Cons q qs)
      then have "q \<in> set ks" by (metis filter_is_subset list.set_intros(1) subsetD)
      with Cons same show ?thesis by simp
    qed
    finally show ?thesis unfolding step using False by (simp add: p)
  qed
qed

lemma keysToRename_fst: "fst ` set (keysToRename codes) = {c \<in> set codes. is_composite c}"
  by (auto simp: keysToRename_eq image_iff)

lemma keysToRename_snd: "n \<in> snd ` set (keysToRename codes) \<Longrightarrow> \<not> is_composite n"
  by (auto simp: keysToRename_eq canonical_not_composite)

lemma keysToRename_disjoint: "snd ` set (keysToRename codes) \<inter> fst ` set (keysToRename codes) = {}"
  using keysToRename_snd[of _ codes] by (auto simp: keysToRename_fst)

lemma normalize_loop_no_composite:
  "is_composite c \<Longrightarrow> c \<notin> fst ` set (fst (rename_loop opid (keysToRename (map fst rs)) (rs, lg)))"
proof
  assume c: "is_composite c"
  assume "c \<in> fst ` set (fst (rename_loop opid (keysToRename (map fst rs)) (rs, lg)))"
  with rename_loop_keys[OF keysToRename_disjoint, of opid "map fst rs" rs lg]
  have "c \<in> (fst ` set rs \<union> snd ` set (keysToRename (map fst rs))) - fst ` set (keysToRename (map fst rs))"
    by blast
  then have alt: "c \<in> fst ` set rs \<or> c \<in> snd ` set (keysToRename (map fst rs))"
    and nc: "c \<notin> fst ` set (keysToRename (map fst rs))" by auto
  from alt show False
  proof
    assume "c \<in> fst ` set rs"
    with c have "c \<in> fst ` set (keysToRename (map fst rs))" by (simp add: keysToRename_fst)
    with nc show False by simp
  next
    assume "c \<in> snd ` set (keysToRename (map fst rs))"
    with c keysToRename_snd show False by blast
  qed
qed

lemma keysToRename_none: "(\<And>c. is_composite c \<Longrightarrow> c \<notin> set codes) \<Longrightarrow> keysToRename codes = []"
  unfolding keysToRename_eq by (induction codes) auto

lemma normalize_responses:
  "op_responses operation = Some rs \<Longrightarrow>
   normalizeResponseCodes operation =
     (operation\<lparr>op_responses := Some (fst (rename_loop (operationId operation) (keysToRename (map fst rs)) (rs, [])))\<rparr>,
      snd (rename_loop (operationId operation) (keysToRename (map fst rs)) (rs, [])))"
  by (simp add: normalizeResponseCodes_def split: prod.splits)

lemma normalize_idem:
  "normalizeResponseCodes (fst (normalizeResponseCodes operation)) = (fst (normalizeResponseCodes operation), [])"
proof (cases "op_responses operation")
  case None
  then show ?thesis by (simp add: normalizeResponseCodes_def)
next
  case (Some rs)
  define rs' where "rs' = fst (rename_loop (operationId operation) (keysToRename (map fst rs)) (rs, []))"
  define op' where "op' = operation\<lparr>op_responses := Some rs'\<rparr>"
  from Some have n1: "fst (normalizeResponseCodes operation) = op'"
    by (simp add: normalize_responses rs'_def op'_def)
  have r': "op_responses op' = Some rs'" by (simp add: op'_def)
  have "keysToRename (map fst rs') = []"
  proof (rule keysToRename_none)
    fix c assume "is_composite c"
    then show "c \<notin> set (map fst rs')"
      unfolding rs'_def using normalize_loop_no_composite[of c] by simp
  qed
  then have "normalizeResponseCodes op' = (op'\<lparr>op_responses := Some rs'\<rparr>, [])"
    using r' by (simp add: normalize_responses)
  also have "op'\<lparr>op_responses := Some rs'\<rparr> = op'" by (simp add: op'_def)
  finally show ?thesis by (simp add: n1)
qed

lemma distinct_keysToRename: "distinct codes \<Longrightarrow> distinct (map fst (keysToRename codes))"
  by (simp add: keysToRename_eq comp_def)

lemma keysToRename_present: "old \<in> fst ` set (keysToRename (map fst rs)) \<Longrightarrow> map_of rs old \<noteq> None"
  by (simp add: keysToRename_fst map_of_eq_None_iff)

lemma filter_canonical_401:
  "filter (\<lambda>p. snd p = ''401'') (keysToRename codes) = map (\<lambda>c. (c, ''401'')) (filter (\<lambda>c. c = ''401/403'') codes)"
  by (induction codes) simp_all

lemma filter_canonical_default:
  "filter (\<lambda>p. snd p = ''default'') (keysToRename codes) =
     map (\<lambda>c. (c, ''default'')) (filter (\<lambda>c. c = ''4xx/5xx'' \<or> c = ''4xx'' \<or> c = ''5xx'') codes)"
  by (induction codes) simp_all

lemma first_of_filter_keys:
  "distinct (map fst rs) \<Longrightarrow>
   (case map (\<lambda>c. (c, n)) (filter P (map fst rs)) of [] \<Rightarrow> None | p # _ \<Rightarrow> map_of rs (fst p)) =
   (case filter (\<lambda>(k, v). P k) rs of [] \<Rightarrow> None | (k, v) # _ \<Rightarrow> Some v)"
proof (induction rs)
  case Nil
  then show ?case by simp
next
  case (Cons a rs)
  obtain k v where a: "a = (k, v)" by (cases a)
  show ?case
  proof (cases "P k")
    case True
    then show ?thesis by (simp add: a)
  next
    case False
    have "(case map (\<lambda>c. (c, n)) (filter P (map fst rs)) of [] \<Rightarrow> None | p # _ \<Rightarrow> map_of (a # rs) (fst p)) =
          (case map (\<lambda>c. (c, n)) (filter P (map fst rs)) of [] \<Rightarrow> None | p # _ \<Rightarrow> map_of rs (fst p))"
    proof (cases "filter P (map fst rs)")
      case Nil
      then show ?thesis by simp
    next
      case (Cons c cs)
      then have "c \<in> set (filter P (map fst rs))" by simp
      then have "P c" by simp
      with False have "c \<noteq> k" by auto
      with Cons show ?thesis by (simp add: a)
    qed
    with False Cons show ?thesis by (simp add: a)
  qed
qed

lemma composite_401: "map_of rs ''401/403'' = (case filter (\<lambda>(k, v). k = ''401/403'') rs of [] \<Rightarrow> None | (k, v) # _ \<Rightarrow> Some v)"
  by (induction rs) auto

lemma set_js_set_new: "k \<notin> fst ` set kvs \<Longrightarrow> set (js_set kvs k v) = insert (k, v) (set kvs)"
  by (simp add: js_set_def set_insert_index)

lemma set_js_delete: "set (js_delete kvs k) = {p \<in> set kvs. fst p \<noteq> k}"
  by (auto simp: js_delete_def)

lemma rename_step_entries:
  assumes "(k, v) \<in> set (js_delete
          (case map_of rs new of
             None \<Rightarrow> (case map_of rs old of Some r \<Rightarrow> js_set rs new r | None \<Rightarrow> rs)
           | Some occupied \<Rightarrow> rs) old)"
  shows "k \<noteq> old \<and> ((k, v) \<in> set rs \<or> (k = new \<and> map_of rs new = None \<and> (old, v) \<in> set rs))"
proof (cases "map_of rs new")
  case None
  then have nk: "new \<notin> fst ` set rs" by (simp add: map_of_eq_None_iff)
  show ?thesis
  proof (cases "map_of rs old")
    case N2: None
    with None assms show ?thesis by (simp add: set_js_delete)
  next
    case (Some r)
    then have "(old, r) \<in> set rs" by (rule map_of_SomeD)
    with None Some assms nk show ?thesis by (auto simp: set_js_delete set_js_set_new)
  qed
next
  case (Some a)
  with assms show ?thesis by (simp add: set_js_delete)
qed

lemma rename_loop_entries:
  "snd ` set ks \<inter> fst ` set ks = {} \<Longrightarrow>
   (k, v) \<in> set (fst (rename_loop opid ks (rs, lg))) \<Longrightarrow>
   (k, v) \<in> set rs \<or> (map_of rs k = None \<and> (\<exists>old. (old, k) \<in> set ks \<and> (old, v) \<in> set rs))"
proof (induction ks arbitrary: rs lg)
  case Nil
  then show ?case by simp
next
  case (Cons p ks)
  obtain old new where p: "p = (old, new)" by (cases p)
  define rs1 where "rs1 = js_delete
          (case map_of rs new of
             None \<Rightarrow> (case map_of rs old of Some r \<Rightarrow> js_set rs new r | None \<Rightarrow> rs)
           | Some occupied \<Rightarrow> rs) old"
  define lg1 where "lg1 = lg @ [(''info'', normalized_message old new opid)]"
  have step: "rename_loop opid (p # ks) (rs, lg) = rename_loop opid ks (rs1, lg1)"
    unfolding p rs1_def lg1_def by simp
  from Cons.prems(1) p have disj: "snd ` set ks \<inter> fst ` set ks = {}"
    and old: "old \<notin> snd ` set ks" "old \<noteq> new" and new: "new \<notin> fst ` set ks"
    by auto
  have e1: "\<And>k v. (k, v) \<in> set rs1 \<Longrightarrow>
      k \<noteq> old \<and> ((k, v) \<in> set rs \<or> (k = new \<and> map_of rs new = None \<and> (old, v) \<in> set rs))"
    unfolding rs1_def by (rule rename_step_entries)
  have l1: "\<And>k. k \<noteq> old \<Longrightarrow> map_of rs1 k = None \<Longrightarrow> map_of rs k = None"
    unfolding rs1_def by (auto simp: map_of_js_delete map_of_js_set split: option.splits if_splits)
  from Cons.prems(2) have "(k, v) \<in> set (fst (rename_loop opid ks (rs1, lg1)))" by (simp add: step)
  with Cons.IH[OF disj] have
    "(k, v) \<in> set rs1 \<or> (map_of rs1 k = None \<and> (\<exists>old. (old, k) \<in> set ks \<and> (old, v) \<in> set rs1))"
    by blast
  then show ?case
  proof
    assume "(k, v) \<in> set rs1"
    with e1 have "(k, v) \<in> set rs \<or> (k = new \<and> map_of rs new = None \<and> (old, v) \<in> set rs)" by blast
    then show ?thesis by (auto simp: p)
  next
    assume a: "map_of rs1 k = None \<and> (\<exists>old. (old, k) \<in> set ks \<and> (old, v) \<in> set rs1)"
    then obtain o' where o': "(o', k) \<in> set ks" "(o', v) \<in> set rs1" by blast
    from o'(1) have "k \<in> snd ` set ks" by force
    with old have "k \<noteq> old" by auto
    with a l1 have nk: "map_of rs k = None" by blast
    from o'(1) have "o' \<in> fst ` set ks" by force
    with new have "o' \<noteq> new" by auto
    with e1[OF o'(2)] have "(o', v) \<in> set rs" by auto
    with nk o'(1) show ?thesis by auto
  qed
qed

section \<open>Properties of the response-code normalisation\<close>

text \<open>
  Claim C4. The normalisation pass rewrites \<open>401/403\<close> to \<open>401\<close> and \<open>4xx\<close>, \<open>5xx\<close>,
  \<open>4xx/5xx\<close> to \<open>default\<close> only when the canonical key is not occupied: an occupied
  canonical entry keeps its value, an unoccupied one receives the entry of the first
  composite key (in key order) that maps to it, and every other key keeps its entry.
  Running the pass on its own result changes nothing and logs no rename.
\<close>

theorem normalizeResponseCodes_first_wins_idempotent:
  "normalizeResponseCodes (fst (normalizeResponseCodes operation)) = (fst (normalizeResponseCodes operation), [])
   \<and> (\<forall>rs. op_responses operation = Some rs \<and> distinct (map fst rs) \<longrightarrow>
        (\<exists>rs'. op_responses (fst (normalizeResponseCodes operation)) = Some rs'
          \<and> (\<forall>r. map_of rs ''401'' = Some r \<longrightarrow> map_of rs' ''401'' = Some r)
          \<and> (\<forall>r. map_of rs ''default'' = Some r \<longrightarrow> map_of rs' ''default'' = Some r)
          \<and> (map_of rs ''401'' = None \<longrightarrow> map_of rs' ''401'' = map_of rs ''401/403'')
          \<and> (map_of rs ''default'' = None \<longrightarrow> map_of rs' ''default'' =
                (case filter (\<lambda>(k, v). k = ''4xx/5xx'' \<or> k = ''4xx'' \<or> k = ''5xx'') rs of
                   [] \<Rightarrow> None | (k, v) # _ \<Rightarrow> Some v))
          \<and> (\<forall>k. \<not> is_composite k \<and> k \<noteq> ''401'' \<and> k \<noteq> ''default'' \<longrightarrow> map_of rs' k = map_of rs k)))"
proof (intro conjI allI impI)
  show "normalizeResponseCodes (fst (normalizeResponseCodes operation)) = (fst (normalizeResponseCodes operation), [])"
    by (rule normalize_idem)
next
  fix rs assume a: "op_responses operation = Some rs \<and> distinct (map fst rs)"
  define ks where "ks = keysToRename (map fst rs)"
  define rs' where "rs' = fst (rename_loop (operationId operation) ks (rs, []))"
  from a have r: "op_responses (fst (normalizeResponseCodes operation)) = Some rs'"
    by (simp add: normalize_responses rs'_def ks_def)
  have disj: "snd ` set ks \<inter> fst ` set ks = {}" unfolding ks_def by (rule keysToRename_disjoint)
  have dist: "distinct (map fst ks)" unfolding ks_def using a by (simp add: distinct_keysToRename)
  have pres: "\<forall>old \<in> fst ` set ks. map_of rs old \<noteq> None"
    unfolding ks_def using keysToRename_present by blast
  have nc401: "''401'' \<notin> fst ` set ks" and ncdef: "''default'' \<notin> fst ` set ks"
    unfolding ks_def by (simp_all add: keysToRename_fst is_composite_def)
  have k401: "\<And>r. map_of rs ''401'' = Some r \<Longrightarrow> map_of rs' ''401'' = Some r"
    unfolding rs'_def using nc401 by (simp add: rename_loop_occupied)
  have kdef: "\<And>r. map_of rs ''default'' = Some r \<Longrightarrow> map_of rs' ''default'' = Some r"
    unfolding rs'_def using ncdef by (simp add: rename_loop_occupied)
  have f401: "map_of rs ''401'' = None \<Longrightarrow> map_of rs' ''401'' = map_of rs ''401/403''"
  proof -
    assume n: "map_of rs ''401'' = None"
    have "map_of rs' ''401'' = (case filter (\<lambda>p. snd p = ''401'') ks of [] \<Rightarrow> None | p # _ \<Rightarrow> map_of rs (fst p))"
      unfolding rs'_def using n dist disj nc401 pres by (rule rename_loop_first)
    also have "\<dots> = (case filter (\<lambda>(k, v). k = ''401/403'') rs of [] \<Rightarrow> None | (k, v) # _ \<Rightarrow> Some v)"
      unfolding ks_def filter_canonical_401 using a by (simp add: first_of_filter_keys)
    also have "\<dots> = map_of rs ''401/403''" by (simp add: composite_401)
    finally show ?thesis .
  qed
  have fdef: "map_of rs ''default'' = None \<Longrightarrow> map_of rs' ''default'' =
                (case filter (\<lambda>(k, v). k = ''4xx/5xx'' \<or> k = ''4xx'' \<or> k = ''5xx'') rs of
                   [] \<Rightarrow> None | (k, v) # _ \<Rightarrow> Some v)"
  proof -
    assume n: "map_of rs ''default'' = None"
    have "map_of rs' ''default'' = (case filter (\<lambda>p. snd p = ''default'') ks of [] \<Rightarrow> None | p # _ \<Rightarrow> map_of rs (fst p))"
      unfolding rs'_def using n dist disj ncdef pres by (rule rename_loop_first)
    also have "\<dots> = (case filter (\<lambda>(k, v). k = ''4xx/5xx'' \<or> k = ''4xx'' \<or> k = ''5xx'') rs of
                   [] \<Rightarrow> None | (k, v) # _ \<Rightarrow> Some v)"
      unfolding ks_def filter_canonical_default using a by (simp add: first_of_filter_keys)
    finally show ?thesis .
  qed
  have other: "\<And>k. \<not> is_composite k \<and> k \<noteq> ''401'' \<and> k \<noteq> ''default'' \<Longrightarrow> map_of rs' k = map_of rs k"
  proof -
    fix k assume k: "\<not> is_composite k \<and> k \<noteq> ''401'' \<and> k \<noteq> ''default''"
    then have "k \<notin> fst ` set ks" unfolding ks_def by (simp add: keysToRename_fst)
    moreover from k have "k \<notin> snd ` set ks" unfolding ks_def
      by (auto simp: keysToRename_eq canonical_of_def split: if_splits)
    ultimately show "map_of rs' k = map_of rs k" unfolding rs'_def by (rule rename_loop_untouched)
  qed
  show "\<exists>rs'. op_responses (fst (normalizeResponseCodes operation)) = Some rs'
          \<and> (\<forall>r. map_of rs ''401'' = Some r \<longrightarrow> map_of rs' ''401'' = Some r)
          \<and> (\<forall>r. map_of rs ''default'' = Some r \<longrightarrow> map_of rs' ''default'' = Some r)
          \<and> (map_of rs ''401'' = None \<longrightarrow> map_of rs' ''401'' = map_of rs ''401/403'')
          \<and> (map_of rs ''default'' = None \<longrightarrow> map_of rs' ''default'' =
                (case filter (\<lambda>(k, v). k = ''4xx/5xx'' \<or> k = ''4xx'' \<or> k = ''5xx'') rs of
                   [] \<Rightarrow> None | (k, v) # _ \<Rightarrow> Some v))
          \<and> (\<forall>k. \<not> is_composite k \<and> k \<noteq> ''401'' \<and> k \<noteq> ''default'' \<longrightarrow> map_of rs' k = map_of rs k)"
    by (intro exI[of _ rs'] conjI allI impI; (rule r | erule k401 | erule kdef | erule f401 | erule fdef | erule other))
qed

theorem normalizeResponseCodes_first_wins_idempotent_witness:
  "op_responses (sample_operation (Some ''getApp'') (Some sample_responses)) = Some sample_responses
   \<and> distinct (map fst sample_responses)
   \<and> map_of sample_responses ''401'' = None \<and> map_of sample_responses ''default'' = None
   \<and> (\<exists>rs'. op_responses (fst (normalizeResponseCodes (sample_operation (Some ''getApp'') (Some sample_responses)))) = Some rs'
         \<and> map_of rs' ''401'' = Some (sample_response ''auth'')
         \<and> map_of rs' ''default'' = Some (sample_response ''client'')
         \<and> map_of rs' ''200'' = Some (sample_response ''ok''))
   \<and> op_responses (sample_operation (Some ''getApp'') (Some occupied_responses)) = Some occupied_responses
   \<and> distinct (map fst occupied_responses)
   \<and> map_of occupied_responses ''401'' = Some (sample_response ''explicit'')
   \<and> map_of occupied_responses ''default'' = Some (sample_response ''fallback'')
   \<and> (\<exists>rs'. op_responses (fst (normalizeResponseCodes (sample_operation (Some ''getApp'') (Some occupied_responses)))) = Some rs'
         \<and> map_of rs' ''401'' = Some (sample_response ''explicit'')
         \<and> map_of rs' ''default'' = Some (sample_response ''fallback''))"
proof -
  let ?op1 = "sample_operation (Some ''getApp'') (Some sample_responses)"
  let ?op2 = "sample_operation (Some ''getApp'') (Some occupied_responses)"
  have h1: "op_responses ?op1 = Some sample_responses \<and> distinct (map fst sample_responses)"
    by (simp add: sample_operation_def sample_responses_def)
  have n1: "map_of sample_responses ''401'' = None" "map_of sample_responses ''default'' = None"
    "map_of sample_responses ''401/403'' = Some (sample_response ''auth'')"
    "map_of sample_responses ''200'' = Some (sample_response ''ok'')"
    "(case filter (\<lambda>(k, v). k = ''4xx/5xx'' \<or> k = ''4xx'' \<or> k = ''5xx'') sample_responses of
                   [] \<Rightarrow> None | (k, v) # _ \<Rightarrow> Some v) = Some (sample_response ''client'')"
    "\<not> is_composite ''200'' \<and> ''200'' \<noteq> ''401'' \<and> ''200'' \<noteq> ''default''"
    by (simp_all add: sample_responses_def is_composite_def)
  have h2: "op_responses ?op2 = Some occupied_responses \<and> distinct (map fst occupied_responses)"
    by (simp add: sample_operation_def occupied_responses_def)
  have n2: "map_of occupied_responses ''401'' = Some (sample_response ''explicit'')"
    "map_of occupied_responses ''default'' = Some (sample_response ''fallback'')"
    by (simp_all add: occupied_responses_def)
  have e1: "\<exists>rs'. op_responses (fst (normalizeResponseCodes ?op1)) = Some rs'
          \<and> (\<forall>r. map_of sample_responses ''401'' = Some r \<longrightarrow> map_of rs' ''401'' = Some r)
          \<and> (\<forall>r. map_of sample_responses ''default'' = Some r \<longrightarrow> map_of rs' ''default'' = Some r)
          \<and> (map_of sample_responses ''401'' = None \<longrightarrow> map_of rs' ''401'' = map_of sample_responses ''401/403'')
          \<and> (map_of sample_responses ''default'' = None \<longrightarrow> map_of rs' ''default'' =
                (case filter (\<lambda>(k, v). k = ''4xx/5xx'' \<or> k = ''4xx'' \<or> k = ''5xx'') sample_responses of
                   [] \<Rightarrow> None | (k, v) # _ \<Rightarrow> Some v))
          \<and> (\<forall>k. \<not> is_composite k \<and> k \<noteq> ''401'' \<and> k \<noteq> ''default'' \<longrightarrow> map_of rs' k = map_of sample_responses k)"
    by (rule normalizeResponseCodes_first_wins_idempotent[of ?op1, THEN conjunct2, rule_format, OF h1])
  have r1: "\<exists>rs'. op_responses (fst (normalizeResponseCodes ?op1)) = Some rs'
         \<and> map_of rs' ''401'' = Some (sample_response ''auth'')
         \<and> map_of rs' ''default'' = Some (sample_response ''client'')
         \<and> map_of rs' ''200'' = Some (sample_response ''ok'')"
  proof -
    from e1 obtain rs1 where rs1: "op_responses (fst (normalizeResponseCodes ?op1)) = Some rs1"
      and a: "map_of sample_responses ''401'' = None \<longrightarrow> map_of rs1 ''401'' = map_of sample_responses ''401/403''"
      and b: "map_of sample_responses ''default'' = None \<longrightarrow> map_of rs1 ''default'' =
                (case filter (\<lambda>(k, v). k = ''4xx/5xx'' \<or> k = ''4xx'' \<or> k = ''5xx'') sample_responses of
                   [] \<Rightarrow> None | (k, v) # _ \<Rightarrow> Some v)"
      and c: "\<forall>k. \<not> is_composite k \<and> k \<noteq> ''401'' \<and> k \<noteq> ''default'' \<longrightarrow> map_of rs1 k = map_of sample_responses k"
      by (elim exE conjE)
    have "map_of rs1 ''200'' = map_of sample_responses ''200''" by (rule c[THEN spec, THEN mp, OF n1(6)])
    then have k200: "map_of rs1 ''200'' = Some (sample_response ''ok'')" by (simp only: n1(4))
    from a n1(1) have "map_of rs1 ''401'' = map_of sample_responses ''401/403''" by (rule mp)
    then have k401: "map_of rs1 ''401'' = Some (sample_response ''auth'')" by (simp only: n1(3))
    from b n1(2) have "map_of rs1 ''default'' =
                (case filter (\<lambda>(k, v). k = ''4xx/5xx'' \<or> k = ''4xx'' \<or> k = ''5xx'') sample_responses of
                   [] \<Rightarrow> None | (k, v) # _ \<Rightarrow> Some v)" by (rule mp)
    then have kdef: "map_of rs1 ''default'' = Some (sample_response ''client'')" by (simp only: n1(5))
    from rs1 k401 kdef k200 show ?thesis by (intro exI[of _ rs1] conjI)
  qed
  have e2: "\<exists>rs'. op_responses (fst (normalizeResponseCodes ?op2)) = Some rs'
          \<and> (\<forall>r. map_of occupied_responses ''401'' = Some r \<longrightarrow> map_of rs' ''401'' = Some r)
          \<and> (\<forall>r. map_of occupied_responses ''default'' = Some r \<longrightarrow> map_of rs' ''default'' = Some r)
          \<and> (map_of occupied_responses ''401'' = None \<longrightarrow> map_of rs' ''401'' = map_of occupied_responses ''401/403'')
          \<and> (map_of occupied_responses ''default'' = None \<longrightarrow> map_of rs' ''default'' =
                (case filter (\<lambda>(k, v). k = ''4xx/5xx'' \<or> k = ''4xx'' \<or> k = ''5xx'') occupied_responses of
                   [] \<Rightarrow> None | (k, v) # _ \<Rightarrow> Some v))
          \<and> (\<forall>k. \<not> is_composite k \<and> k \<noteq> ''401'' \<and> k \<noteq> ''default'' \<longrightarrow> map_of rs' k = map_of occupied_responses k)"
    by (rule normalizeResponseCodes_first_wins_idempotent[of ?op2, THEN conjunct2, rule_format, OF h2])
  have r2: "\<exists>rs'. op_responses (fst (normalizeResponseCodes ?op2)) = Some rs'
         \<and> map_of rs' ''401'' = Some (sample_response ''explicit'')
         \<and> map_of rs' ''default'' = Some (sample_response ''fallback'')"
  proof -
    from e2 obtain rs2 where rs2: "op_responses (fst (normalizeResponseCodes ?op2)) = Some rs2"
      and a: "\<forall>r. map_of occupied_responses ''401'' = Some r \<longrightarrow> map_of rs2 ''401'' = Some r"
      and b: "\<forall>r. map_of occupied_responses ''default'' = Some r \<longrightarrow> map_of rs2 ''default'' = Some r"
      by (elim exE conjE)
    have "map_of rs2 ''401'' = Some (sample_response ''explicit'')" by (rule a[THEN spec, THEN mp, OF n2(1)])
    moreover have "map_of rs2 ''default'' = Some (sample_response ''fallback'')" by (rule b[THEN spec, THEN mp, OF n2(2)])
    ultimately show ?thesis using rs2 by (intro exI[of _ rs2] conjI)
  qed
  from h1 have h1a: "op_responses ?op1 = Some sample_responses" and h1b: "distinct (map fst sample_responses)" by (rule conjunct1, rule conjunct2)
  from h2 have h2a: "op_responses ?op2 = Some occupied_responses" and h2b: "distinct (map fst occupied_responses)" by (rule conjunct1, rule conjunct2)
  from h1a h1b n1(1) n1(2) r1 h2a h2b n2(1) n2(2) r2 show ?thesis by (intro conjI)
qed

text \<open>
  Claim C10. After the pass the responses of an operation have none of the keys
  \<open>401/403\<close>, \<open>4xx\<close>, \<open>5xx\<close>, \<open>4xx/5xx\<close>. Every entry that remains was an entry before, or is
  the content of a composite key stored under its canonical key, which was unoccupied:
  where the canonical key was occupied the composite content is gone.
\<close>

theorem normalizeResponseCodes_no_composite_left:
  "op_responses operation = Some rs \<Longrightarrow>
   \<exists>rs'. op_responses (fst (normalizeResponseCodes operation)) = Some rs'
     \<and> ''401/403'' \<notin> fst ` set rs' \<and> ''4xx'' \<notin> fst ` set rs' \<and> ''5xx'' \<notin> fst ` set rs'
     \<and> ''4xx/5xx'' \<notin> fst ` set rs'
     \<and> (\<forall>(k, v) \<in> set rs'. (k, v) \<in> set rs \<or>
            (map_of rs k = None \<and> (\<exists>c. is_composite c \<and> canonical_of c = k \<and> (c, v) \<in> set rs)))"
proof -
  assume a: "op_responses operation = Some rs"
  define ks where "ks = keysToRename (map fst rs)"
  define rs' where "rs' = fst (rename_loop (operationId operation) ks (rs, []))"
  from a have r: "op_responses (fst (normalizeResponseCodes operation)) = Some rs'"
    by (simp add: normalize_responses rs'_def ks_def)
  have nc: "\<And>c. is_composite c \<Longrightarrow> c \<notin> fst ` set rs'"
    unfolding rs'_def ks_def by (rule normalize_loop_no_composite)
  have disj: "snd ` set ks \<inter> fst ` set ks = {}" unfolding ks_def by (rule keysToRename_disjoint)
  have ent1: "\<And>k v. (k, v) \<in> set rs' \<Longrightarrow> (k, v) \<in> set rs \<or>
            (map_of rs k = None \<and> (\<exists>c. is_composite c \<and> canonical_of c = k \<and> (c, v) \<in> set rs))"
  proof -
    fix k v assume kv: "(k, v) \<in> set rs'"
    from rename_loop_entries[OF disj kv[unfolded rs'_def]]
    have "(k, v) \<in> set rs \<or> (map_of rs k = None \<and> (\<exists>old. (old, k) \<in> set ks \<and> (old, v) \<in> set rs))" .
    moreover have "\<And>old. (old, k) \<in> set ks \<Longrightarrow> is_composite old \<and> canonical_of old = k"
      unfolding ks_def keysToRename_eq by auto
    ultimately show "(k, v) \<in> set rs \<or>
            (map_of rs k = None \<and> (\<exists>c. is_composite c \<and> canonical_of c = k \<and> (c, v) \<in> set rs))"
      by blast
  qed
  then have ent: "\<forall>(k, v) \<in> set rs'. (k, v) \<in> set rs \<or>
            (map_of rs k = None \<and> (\<exists>c. is_composite c \<and> canonical_of c = k \<and> (c, v) \<in> set rs))"
    by blast
  have "is_composite ''401/403''" "is_composite ''4xx''" "is_composite ''5xx''" "is_composite ''4xx/5xx''"
    by (simp_all add: is_composite_def)
  with nc have "''401/403'' \<notin> fst ` set rs'" "''4xx'' \<notin> fst ` set rs'" "''5xx'' \<notin> fst ` set rs'"
     "''4xx/5xx'' \<notin> fst ` set rs'" by blast+
  with r ent show ?thesis by blast
qed

theorem normalizeResponseCodes_no_composite_left_witness:
  "op_responses (sample_operation (Some ''getApp'') (Some occupied_responses)) = Some occupied_responses
   \<and> (\<exists>rs'. op_responses (fst (normalizeResponseCodes (sample_operation (Some ''getApp'') (Some occupied_responses)))) = Some rs'
     \<and> ''401/403'' \<notin> fst ` set rs' \<and> ''4xx'' \<notin> fst ` set rs' \<and> ''5xx'' \<notin> fst ` set rs'
     \<and> ''4xx/5xx'' \<notin> fst ` set rs')
   \<and> fst (normalizeResponseCodes (sample_operation (Some ''getApp'') (Some occupied_responses))) =
      sample_operation (Some ''getApp'') (Some [(''401'', sample_response ''explicit''), (''default'', sample_response ''fallback'')])"
proof -
  let ?op2 = "sample_operation (Some ''getApp'') (Some occupied_responses)"
  have h: "op_responses ?op2 = Some occupied_responses"
    by (simp add: sample_operation_def)
  have e: "fst (normalizeResponseCodes ?op2) =
      sample_operation (Some ''getApp'') (Some [(''401'', sample_response ''explicit''), (''default'', sample_response ''fallback'')])"
    by code_simp
  from normalizeResponseCodes_no_composite_left[OF h] h e show ?thesis by blast
qed


lemma baseName_segments: "baseName path = concat (non_parameter_segments path)"
proof -
  have "\<And>xs. concat (filter (\<lambda>p. p \<noteq> []) (map (\<lambda>p. if startsWith_brace p then [] else p) (filter (\<lambda>p. p \<noteq> []) xs)))
      = concat (filter (\<lambda>p. p \<noteq> [] \<and> \<not> startsWith_brace p) xs)"
  proof -
    fix xs :: "string list"
    show "concat (filter (\<lambda>p. p \<noteq> []) (map (\<lambda>p. if startsWith_brace p then [] else p) (filter (\<lambda>p. p \<noteq> []) xs)))
      = concat (filter (\<lambda>p. p \<noteq> [] \<and> \<not> startsWith_brace p) xs)"
      by (induction xs) auto
  qed
  then show ?thesis by (simp add: baseName_def non_parameter_segments_def)
qed

lemma methodPrefix_nonempty: "m \<noteq> [] \<Longrightarrow> methodPrefix m \<noteq> []"
  by (simp add: methodPrefix_def)

lemma normalize_keeps_id: "operationId (fst (normalizeResponseCodes operation)) = operationId operation"
  by (cases "op_responses operation") (simp_all add: normalizeResponseCodes_def split: prod.splits)

lemma removeInternalHeaders_keeps_id: "operationId (removeInternalHeaders operation) = operationId operation"
  by (cases "op_parameters operation") (simp_all add: removeInternalHeaders_def)

lemma patchOperation_id:
  "operationId (fst (patchOperation operation path method)) =
     (if id_missing (operationId operation) then Some (synthesized_id path method) else operationId operation)"
proof -
  obtain op2 lg where n: "normalizeResponseCodes (removeInternalHeaders operation) = (op2, lg)"
    by (cases "normalizeResponseCodes (removeInternalHeaders operation)")
  define op3 where "op3 = (if id_missing (operationId op2)
                 then op2\<lparr>operationId := Some (synthesized_id path method)\<rparr> else op2)"
  have "operationId op2 = operationId (fst (normalizeResponseCodes (removeInternalHeaders operation)))"
    by (simp add: n)
  then have id2: "operationId op2 = operationId operation"
    by (simp add: normalize_keeps_id removeInternalHeaders_keeps_id)
  have id3: "operationId op3 = (if id_missing (operationId operation) then Some (synthesized_id path method) else operationId operation)"
    by (simp add: op3_def id2)
  have "fst (patchOperation operation path method) =
      (case op_requestBody op3 of
                   None \<Rightarrow> op3
                 | Some rb \<Rightarrow>
                     (case operationId op3 of
                        None \<Rightarrow> op3
                      | Some i \<Rightarrow> if i \<in> set REQUIRED_BODY_OPERATIONS
                                  then op3\<lparr>op_requestBody := Some (rb\<lparr>rb_required := Some True\<rparr>)\<rparr>
                                  else op3))"
    unfolding patchOperation_def Let_def n op3_def by simp
  then have "operationId (fst (patchOperation operation path method)) = operationId op3"
    by (simp split: option.splits)
  with id3 show ?thesis by simp
qed

lemma patchOperation_id_nonempty:
  "m \<noteq> [] \<Longrightarrow> \<exists>i. operationId (fst (patchOperation operation path m)) = Some i \<and> i \<noteq> []"
  using methodPrefix_nonempty[of m]
  by (cases "operationId operation") (auto simp: patchOperation_id id_missing_def synthesized_id_def)

lemma method_of_update:
  "m \<in> set METHODS \<Longrightarrow> method_of m' (method_update m operation item) = (if m' = m then Some operation else method_of m' item)"
  by (auto simp: METHODS_def method_of_def method_update_def)

lemma method_of_Some: "method_of m item = Some operation \<Longrightarrow> m \<in> set METHODS"
  by (simp add: METHODS_def method_of_def split: if_splits)

lemma patchMethods_result:
  "distinct ms \<Longrightarrow> set ms \<subseteq> set METHODS \<Longrightarrow>
   method_of m (fst (patchMethods path ms (item, lg))) =
     (if m \<in> set ms then map_option (\<lambda>operation. fst (patchOperation operation path m)) (method_of m item)
      else method_of m item)"
proof (induction ms arbitrary: item lg)
  case Nil
  then show ?case by simp
next
  case (Cons a ms)
  then have a: "a \<in> set METHODS" "a \<notin> set ms" "distinct ms" "set ms \<subseteq> set METHODS" by auto
  show ?case
  proof (cases "method_of a item")
    case None
    then show ?thesis using a Cons.IH[OF a(3) a(4)] by auto
  next
    case (Some operation)
    then show ?thesis using a Cons.IH[OF a(3) a(4)] by (auto simp: method_of_update)
  qed
qed

lemma patchPaths_entries:
  "(p, item') \<in> set (fst (patchPaths paths)) \<Longrightarrow>
   \<exists>item. (p, item) \<in> set paths \<and> item' = fst (patchMethods p METHODS (item, []))"
proof (induction paths arbitrary: p item')
  case Nil
  then show ?case by simp
next
  case (Cons a paths)
  obtain q it where a: "a = (q, it)" by (cases a)
  from Cons.prems have "(p, item') = (q, fst (patchMethods q METHODS (it, []))) \<or> (p, item') \<in> set (fst (patchPaths paths))"
    by (auto simp: a split: prod.splits)
  then show ?case
  proof
    assume "(p, item') = (q, fst (patchMethods q METHODS (it, [])))"
    then show ?thesis by (auto simp: a)
  next
    assume "(p, item') \<in> set (fst (patchPaths paths))"
    from Cons.IH[OF this] show ?thesis by auto
  qed
qed

lemma METHODS_distinct: "distinct METHODS"
  by (simp add: METHODS_def)

lemma METHODS_nonempty: "m \<in> set METHODS \<Longrightarrow> m \<noteq> []"
  by (auto simp: METHODS_def)

lemma patchPaths_ids:
  assumes "(p, item') \<in> set (fst (patchPaths paths))" and "method_of m item' = Some op'"
  shows "\<exists>i. operationId op' = Some i \<and> i \<noteq> []"
proof -
  from assms(1) obtain item where item: "item' = fst (patchMethods p METHODS (item, []))"
    using patchPaths_entries by blast
  from assms(2) have m: "m \<in> set METHODS" by (rule method_of_Some)
  have "method_of m item' = map_option (\<lambda>operation. fst (patchOperation operation p m)) (method_of m item)"
    unfolding item using m by (simp add: patchMethods_result[OF METHODS_distinct subset_refl])
  with assms(2) obtain operation where "op' = fst (patchOperation operation p m)" by auto
  with patchOperation_id_nonempty[OF METHODS_nonempty[OF m]] show ?thesis by blast
qed

section \<open>Properties of the operationId backfill\<close>

text \<open>
  Claim C7, as the code has it. An operation without an identifier receives the method
  prefix (\<open>get\<close> for get, \<open>create\<close> for post, the method itself otherwise) followed by the
  concatenation of the path's non-parameter segments with its first character in upper
  case (only the first: the later segments keep their case); this is stated for a path
  of ASCII characters, on which the case map of the model is the engine's. An operation
  with an identifier keeps it; and after the loop over the document every operation
  under the five methods has a non-empty identifier.
\<close>

theorem patchOperation_synthesizes_operationId:
  "(id_missing (operationId operation) \<and> ascii path \<longrightarrow>
      operationId (fst (patchOperation operation path method)) =
        Some (methodPrefix method @ upper_first (concat (non_parameter_segments path))))
   \<and> (\<not> id_missing (operationId operation) \<longrightarrow>
      operationId (fst (patchOperation operation path method)) = operationId operation)
   \<and> (\<forall>p item' m op'. (p, item') \<in> set (fst (patchPaths paths)) \<and> method_of m item' = Some op' \<longrightarrow>
        (\<exists>i. operationId op' = Some i \<and> i \<noteq> []))"
proof (intro conjI impI allI)
  assume "id_missing (operationId operation) \<and> ascii path"
  then show "operationId (fst (patchOperation operation path method)) =
        Some (methodPrefix method @ upper_first (concat (non_parameter_segments path)))"
    by (simp add: patchOperation_id synthesized_id_def baseName_segments)
next
  assume "\<not> id_missing (operationId operation)"
  then show "operationId (fst (patchOperation operation path method)) = operationId operation"
    by (simp add: patchOperation_id)
next
  fix p item' m op'
  assume "(p, item') \<in> set (fst (patchPaths paths)) \<and> method_of m item' = Some op'"
  then show "\<exists>i. operationId op' = Some i \<and> i \<noteq> []"
    using patchPaths_ids[of p item' paths m op'] by blast
qed

theorem patchOperation_synthesizes_operationId_witness:
  "id_missing (operationId (sample_operation None None)) \<and> ascii ''/apps/{appId}/events''
   \<and> operationId (fst (patchOperation (sample_operation None None) ''/apps/{appId}/events'' ''get'')) = Some ''getAppsevents''
   \<and> \<not> id_missing (operationId (sample_operation (Some ''removeApp'') None))
   \<and> operationId (fst (patchOperation (sample_operation (Some ''removeApp'') None) ''/apps/{appId}'' ''delete'')) = Some ''removeApp''
   \<and> (''/apps'', fst (patchMethods ''/apps'' METHODS (sample_pathItem, []))) \<in> set (fst (patchPaths [(''/apps'', sample_pathItem)]))
   \<and> method_of ''post'' (fst (patchMethods ''/apps'' METHODS (sample_pathItem, []))) =
        Some (fst (patchOperation (sample_operation (Some []) None) ''/apps'' ''post''))
   \<and> (\<exists>i. operationId (fst (patchOperation (sample_operation (Some []) None) ''/apps'' ''post'')) = Some i \<and> i \<noteq> [])"
proof -
  have a: "id_missing (operationId (sample_operation None None))"
    by (simp add: sample_operation_def id_missing_def)
  have a': "ascii ''/apps/{appId}/events''"
    by (simp add: ascii_def)
  have b: "upper_first (concat (non_parameter_segments ''/apps/{appId}/events'')) = ''Appsevents''"
    by code_simp
  have c: "\<not> id_missing (operationId (sample_operation (Some ''removeApp'') None))"
    by (simp add: sample_operation_def id_missing_def)
  have d: "(''/apps'', fst (patchMethods ''/apps'' METHODS (sample_pathItem, []))) \<in> set (fst (patchPaths [(''/apps'', sample_pathItem)]))"
    by (simp split: prod.splits)
  have e: "method_of ''post'' (fst (patchMethods ''/apps'' METHODS (sample_pathItem, []))) =
        Some (fst (patchOperation (sample_operation (Some []) None) ''/apps'' ''post''))"
  proof -
    have "method_of ''post'' (fst (patchMethods ''/apps'' METHODS (sample_pathItem, []))) =
        (if ''post'' \<in> set METHODS
         then map_option (\<lambda>operation. fst (patchOperation operation ''/apps'' ''post'')) (method_of ''post'' sample_pathItem)
         else method_of ''post'' sample_pathItem)"
      by (rule patchMethods_result[OF METHODS_distinct subset_refl])
    then show ?thesis by (simp add: METHODS_def method_of_def sample_pathItem_def)
  qed
  from patchOperation_synthesizes_operationId[of "sample_operation None None" "''/apps/{appId}/events''" "''get''" "[(''/apps'', sample_pathItem)]"]
    a a' b have 1: "operationId (fst (patchOperation (sample_operation None None) ''/apps/{appId}/events'' ''get'')) = Some ''getAppsevents''"
    by (simp add: methodPrefix_def)
  from patchOperation_synthesizes_operationId[of "sample_operation (Some ''removeApp'') None" "''/apps/{appId}''" "''delete''" "[]"]
    c have 2: "operationId (fst (patchOperation (sample_operation (Some ''removeApp'') None) ''/apps/{appId}'' ''delete'')) = Some ''removeApp''"
    by (simp add: sample_operation_def)
  from patchOperation_synthesizes_operationId[of "sample_operation None None" "''/apps/{appId}/events''" "''get''" "[(''/apps'', sample_pathItem)]"]
    d e have 3: "\<exists>i. operationId (fst (patchOperation (sample_operation (Some []) None) ''/apps'' ''post'')) = Some i \<and> i \<noteq> []"
    by blast
  from a a' 1 c 2 d e 3 show ?thesis by blast
qed

text \<open>The identifier is not the PascalCase concatenation of the segments: for
  \<open>GET /apps/{appId}/events\<close> the pass builds \<open>getAppsevents\<close>, not \<open>getAppsEvents\<close>.\<close>

theorem patchOperation_id_not_pascalCase:
  "operationId (fst (patchOperation (sample_operation None None) ''/apps/{appId}/events'' ''get'')) = Some ''getAppsevents''
   \<and> pascalCase_id ''/apps/{appId}/events'' ''get'' = ''getAppsEvents''"
  by code_simp


section \<open>Properties of the fixture validator\<close>


declare validateValueAgainstSchema.simps(2) [simp del]

lemma below_refl: "below a a"
  by (simp add: below_def)

lemma below_if: "(c \<Longrightarrow> below a a') \<Longrightarrow> (\<not> c \<Longrightarrow> below b b') \<Longrightarrow> below (if c then a else b) (if c then a' else b')"
  by simp

lemma below_and_then:
  assumes "below a a'" and "\<And>x. below (f x) (f' x)"
  shows "below (and_then a f) (and_then a' f')"
proof (cases a)
  case OutOfFuel
  then show ?thesis by (simp add: below_def and_then_def)
next
  case (Throws e)
  with assms(1) have "a' = Throws e" by (simp add: below_def)
  with Throws show ?thesis by (simp add: below_def and_then_def)
next
  case (Returns x)
  with assms(1) have "a' = Returns x" by (simp add: below_def)
  with Returns assms(2)[of x] show ?thesis by (simp add: and_then_def)
qed

lemma below_if_app:
  "(c \<Longrightarrow> below (f acc) (f' acc)) \<Longrightarrow> (\<not> c \<Longrightarrow> below (g acc) (g' acc)) \<Longrightarrow>
   below ((if c then f else g) acc) ((if c then f' else g') acc)"
  by simp

lemma below_for_each: "(\<And>x acc. below (f x acc) (f' x acc)) \<Longrightarrow> below (for_each f xs acc) (for_each f' xs acc)"
proof (induction xs arbitrary: acc)
  case Nil
  then show ?case by (simp add: below_refl)
next
  case (Cons x xs)
  show ?case unfolding for_each.simps
    by (rule below_and_then) (rule Cons.prems, rule Cons.IH, rule Cons.prems)
qed

lemma below_some_match: "(\<And>s. below (f s) (f' s)) \<Longrightarrow> below (some_match f ss) (some_match f' ss)"
proof (induction ss)
  case Nil
  then show ?case by (simp add: below_refl)
next
  case (Cons s ss)
  show ?case unfolding some_match.simps
  proof (rule below_and_then)
    show "below (f s) (f' s)" by (rule Cons.prems)
  next
    fix x :: collectors
    show "below (case x of (tempErrors, tempWarnings) \<Rightarrow> if tempErrors = [] then Returns True else some_match f ss)
       (case x of (tempErrors, tempWarnings) \<Rightarrow> if tempErrors = [] then Returns True else some_match f' ss)"
      using Cons.IH[OF Cons.prems] by (cases x) (simp add: below_refl)
  qed
qed

lemma below_case_prod: "(\<And>a b. below (f a b) (f' a b)) \<Longrightarrow> below (case x of (a, b) \<Rightarrow> f a b) (case x of (a, b) \<Rightarrow> f' a b)"
  by (cases x) simp

lemma below_case_prod2:
  "(\<And>a b. below (f a b acc) (f' a b acc)) \<Longrightarrow>
   below ((case x of (a, b) \<Rightarrow> f a b) acc) ((case x of (a, b) \<Rightarrow> f' a b) acc)"
  by (cases x) simp

lemma validate_step_below:
  "below (validateValueAgainstSchema n val schema spec path acc) (validateValueAgainstSchema (Suc n) val schema spec path acc)"
proof (induction n arbitrary: val schema spec path acc)
  case 0
  then show ?case by (simp add: below_def)
next
  case (Suc n)
  obtain errors warnings where acc: "acc = (errors, warnings)" by (cases acc)
  have ih: "\<And>val schema path acc. below (validateValueAgainstSchema n val schema spec path acc)
      (validateValueAgainstSchema (Suc n) val schema spec path acc)" by (rule Suc.IH)
  show ?case unfolding acc
    apply (subst validateValueAgainstSchema.simps(2))
    apply (subst validateValueAgainstSchema.simps(2)[of "Suc n"])
    apply (intro below_if below_refl)
       apply (simp add: below_refl ih split: option.split jsv.split)
      apply (simp split: option.split jsv.split add: below_refl)
      apply (intro allI impI conjI below_and_then below_some_match below_refl ih)
     apply (intro below_and_then below_for_each below_refl ih)
    apply (intro below_and_then below_if below_for_each below_refl below_case_prod below_case_prod2 below_if_app ih)
    done
qed


lemma validate_fuel_mono:
  "validateValueAgainstSchema n val schema spec path acc = Returns r \<Longrightarrow> n \<le> m \<Longrightarrow>
   validateValueAgainstSchema m val schema spec path acc = Returns r"
proof (induction m)
  case 0
  then show ?case by simp
next
  case (Suc m)
  show ?case
  proof (cases "n = Suc m")
    case True
    with Suc.prems show ?thesis by simp
  next
    case False
    with Suc.prems have "n \<le> m" by simp
    with Suc have "validateValueAgainstSchema m val schema spec path acc = Returns r" by simp
    with validate_step_below[of m val schema spec path acc] show ?thesis by (simp add: below_def)
  qed
qed

lemma some_match_returns:
  "(\<And>s. s \<in> set ss \<Longrightarrow> \<exists>r. f s = Returns r) \<Longrightarrow> \<exists>b. some_match f ss = Returns b"
proof (induction ss)
  case Nil
  then show ?case by auto
next
  case (Cons s ss)
  from Cons.prems[of s] obtain r where r: "f s = Returns r" by auto
  obtain e w where ew: "r = (e, w)" by (cases r)
  from Cons.IH Cons.prems obtain b where "some_match f ss = Returns b" by auto
  with r ew show ?case by (auto simp: and_then_def)
qed

lemma for_each_returns:
  "(\<And>x acc. x \<in> set xs \<Longrightarrow> \<exists>r. f x acc = Returns r) \<Longrightarrow> \<exists>r. for_each f xs acc = Returns r"
proof (induction xs arbitrary: acc)
  case Nil
  then show ?case by simp
next
  case (Cons x xs)
  from Cons.prems[of x acc] obtain r where r: "f x acc = Returns r" by auto
  from Cons.IH[of r] Cons.prems obtain r' where "for_each f xs r = Returns r'" by auto
  with r show ?case by (simp add: and_then_def)
qed

lemma schema_field_Some_not_null: "schema_field schema k = Some v \<Longrightarrow> schema \<noteq> JNull"
  by (auto simp: schema_field_def)

lemma truthy_opt_not_null: "truthy_opt (schema_field schema k) \<Longrightarrow> schema \<noteq> JNull"
  by (auto simp: schema_field_def truthy_opt_def)

lemma and_then_Returns: "and_then (Returns x) f = f x"
  by (simp add: and_then_def)

lemma validate_plain:
  assumes "schema \<noteq> JNull" "\<not> truthy_opt (schema_field schema ''$ref'')"
    "\<not> truthy_opt (schema_field schema ''oneOf'')" "\<not> truthy_opt (schema_field schema ''anyOf'')"
    "\<not> truthy_opt (schema_field schema ''allOf'')"
  shows "validateValueAgainstSchema (Suc n) val schema spec path (errors, warnings) =
      (if truthy_opt (schema_field schema ''type'')
              \<and> JStr (getTypeOf val) \<notin> set (map normalize_type (expectedTypes (the (schema_field schema ''type''))))
      then (if getTypeOf val \<noteq> ''null''
            then and_then (or_throw (to_string (the (schema_field schema ''type''))))
                   (\<lambda>expected. Returns (errors @ [type_message path expected (getTypeOf val)], warnings))
            else Returns (errors, warnings))
      else
        and_then
          (if schema_field schema ''type'' = Some (JStr ''array'') \<and> isArray val
                \<and> truthy_opt (schema_field schema ''items'')
           then for_each (\<lambda>(index, item).
                    validateValueAgainstSchema n item (the (schema_field schema ''items'')) spec
                      (path @ ''['' @ index @ '']''))
                  (object_entries val) (errors, warnings)
           else Returns (errors, warnings))
          (\<lambda>(errors1, warnings1).
             if schema_field schema ''type'' = Some (JStr ''object'') \<and> js_typeof val = ''object'' \<and> val \<noteq> JNull
                  \<and> truthy_opt (schema_field schema ''properties'')
             then
               and_then (or_throw (if truthy_opt (schema_field schema ''required'')
                                   then iterate (the (schema_field schema ''required'')) else Inr []))
                 (\<lambda>reqs.
                    and_then (or_throw (check_required path val reqs errors1))
                      (\<lambda>checked.
                         and_then
                           (for_each (\<lambda>(key, propSchema).
                                if has_property val key
                                then validateValueAgainstSchema n (the (get_property val key)) propSchema spec
                                       (path @ ''.'' @ key)
                                else Returns)
                              (object_entries (the (schema_field schema ''properties'')))
                              (checked, warnings1))
                           (\<lambda>(errors2, warnings2).
                              if \<not> truthy_opt (schema_field schema ''additionalProperties'')
                              then and_then
                                     (or_throw (check_unknown path val (the (schema_field schema ''properties'')) warnings2))
                                     (\<lambda>warnings3. Returns (errors2, warnings3))
                              else Returns (errors2, warnings2))))
             else Returns (errors1, warnings1)))"
  by (subst validateValueAgainstSchema.simps(2)) (simp only: assms if_False simp_thms)



lemma returns_from_mono: "returns_from n spec val schema \<Longrightarrow> n \<le> m \<Longrightarrow> returns_from m spec val schema"
  by (simp add: returns_from_def)

lemma returns_from_all:
  "(\<And>x. x \<in> set xs \<Longrightarrow> \<exists>n. returns_from n spec (fv x) (fs x)) \<Longrightarrow>
   \<exists>N. \<forall>x \<in> set xs. returns_from N spec (fv x) (fs x)"
proof (induction xs)
  case Nil
  then show ?case by simp
next
  case (Cons x xs)
  from Cons.prems[of x] obtain n where n: "returns_from n spec (fv x) (fs x)" by auto
  from Cons.IH Cons.prems obtain N where N: "\<forall>x \<in> set xs. returns_from N spec (fv x) (fs x)" by auto
  have "\<forall>y \<in> set (x # xs). returns_from (max n N) spec (fv y) (fs y)"
    using n N returns_from_mono[of _ spec _ _ "max n N"] by auto
  then show ?case by blast
qed

lemma vrank_member: "x \<in> set xs \<Longrightarrow> vrank x < vrank (JArr xs)"
  by (induction xs) auto

lemma vrank_value: "(k, v) \<in> set kvs \<Longrightarrow> vrank v < vrank (JObj kvs)"
  by (induction kvs) auto

lemma vrank_entry:
  assumes "isArray val" and "(index, item) \<in> set (object_entries val)"
  shows "vrank item < vrank val"
proof (cases val)
  case (JArr xs)
  with assms(2) have "item \<in> set xs" by (auto dest: jrank_indexed)
  with JArr show ?thesis by (simp add: vrank_member del: vrank.simps)
qed (use assms in auto)

lemma vrank_inherited: "inherited proto names k = Some v \<Longrightarrow> v = proto \<or> v = JFunction"
  by (auto simp: inherited_def split: if_splits)

lemma vrank_property:
  assumes "js_typeof val = ''object''" and "val \<noteq> JNull" and "get_property val key = Some v"
  shows "vrank v < vrank val"
proof (cases val)
  case (JObj kvs)
  show ?thesis
  proof (cases "map_of kvs key")
    case None
    with assms(3) JObj have "v = JObjectPrototype \<or> v = JFunction" by (auto dest: vrank_inherited)
    with JObj show ?thesis by auto
  next
    case (Some w)
    with assms(3) JObj have "(key, v) \<in> set kvs" by (auto dest: map_of_SomeD)
    with JObj show ?thesis by (simp add: vrank_value del: vrank.simps)
  qed
next
  case (JArr xs)
  show ?thesis
  proof (cases "element_at xs key")
    case None
    with assms(3) JArr have "v = JNum (show_nat (length xs)) \<or> v = JArrayPrototype \<or> v = JFunction"
      by (auto dest: vrank_inherited split: if_splits)
    with JArr show ?thesis by auto
  next
    case (Some w)
    with assms(3) JArr have "(key, v) \<in> set (indexed 0 xs)"
      by (auto simp: element_at_def dest: map_of_SomeD)
    then have "v \<in> set xs" by (rule jrank_indexed)
    with JArr show ?thesis by (simp add: vrank_member del: vrank.simps)
  qed
next
  case JObjectPrototype
  with assms(3) have "v = JNull \<or> v = JFunction" by (auto dest: vrank_inherited)
  with JObjectPrototype show ?thesis by auto
next
  case JArrayPrototype
  with assms(3) have "v = JNum ''0'' \<or> v = JObjectPrototype \<or> v = JFunction"
    by (auto dest: vrank_inherited split: if_splits)
  with JArrayPrototype show ?thesis by auto
qed (use assms in auto)

lemma visits_trans: "visits spec s node \<Longrightarrow> visits spec schema s \<Longrightarrow> visits spec schema node"
  by (induction rule: visits.induct) (auto intro: visits.intros)

lemma visits_next:
  "s \<in> set (same_value_steps spec schema @ sub_value_steps schema) \<Longrightarrow> visits spec s node
   \<Longrightarrow> visits spec schema node"
  using visits_trans[of spec s node schema] visits_step[OF visits_start, of s spec schema] by blast

lemma all_printable: "list_all printable reqs \<Longrightarrow> \<exists>keys. all_or_throw (map to_string reqs) = Inr keys"
proof (induction reqs)
  case Nil
  then show ?case by simp
next
  case (Cons r reqs)
  then obtain k where k: "to_string r = Inr k"
    by (cases "to_string r") (auto simp: printable_def)
  from Cons obtain keys where "all_or_throw (map to_string reqs) = Inr keys" by auto
  with k show ?case by simp
qed


lemma validate_returns_step:
  assumes sub: "\<And>v' s'. vrank v' < vrank val \<Longrightarrow>
                  (\<And>node. visits spec s' node \<Longrightarrow> declared_shape node \<and> chain_ends spec node) \<Longrightarrow>
                  \<exists>n. returns_from n spec v' s'"
    and ends: "chain_ends spec schema"
    and good: "\<And>node. visits spec schema node \<Longrightarrow> declared_shape node \<and> chain_ends spec node"
  shows "\<exists>n. returns_from n spec val schema"
  using ends good
proof (induction rule: chain_ends.induct)
  case (chain_step schema)
  have shape: "declared_shape schema" using chain_step.prems[OF visits_start] by simp
  then have nn: "schema \<noteq> JNull" by (simp add: declared_shape_def)
  have next_good: "\<And>s node. s \<in> set (same_value_steps spec schema @ sub_value_steps schema) \<Longrightarrow>
      visits spec s node \<Longrightarrow> declared_shape node \<and> chain_ends spec node"
    using visits_next chain_step.prems by blast
  have same: "\<exists>n. returns_from n spec val s" if s: "s \<in> set (same_value_steps spec schema)" for s
  proof (rule chain_step.IH[OF s])
    fix node assume "visits spec s node"
    with s show "declared_shape node \<and> chain_ends spec node" using next_good[of s node] by simp
  qed
  have part: "\<exists>n. returns_from n spec v' s"
    if v: "vrank v' < vrank val" and s: "s \<in> set (sub_value_steps schema)" for v' s
  proof (rule sub[OF v])
    fix node assume "visits spec s node"
    with s show "declared_shape node \<and> chain_ends spec node" using next_good[of s node] by simp
  qed
  define chosen where "chosen = (if truthy_opt (schema_field schema ''oneOf'') then schema_field schema ''oneOf''
               else schema_field schema ''anyOf'')"
  show ?case
  proof (cases "truthy_opt (schema_field schema ''$ref'')")
    case True
    with shape obtain ref where ref: "schema_field schema ''$ref'' = Some (JStr ref)"
      by (auto simp: declared_shape_def split: option.splits jsv.splits)
    show ?thesis
    proof (cases "truthy (resolveRef ref spec)")
      case t: True
      with True ref have "resolveRef ref spec \<in> set (same_value_steps spec schema)"
        by (simp add: same_value_steps_def)
      from same[OF this] obtain n where n: "returns_from n spec val (resolveRef ref spec)" by blast
      have "returns_from (Suc n) spec val schema"
        unfolding returns_from_def
      proof (intro allI impI)
        fix m :: nat and path and acc :: collectors
        assume "Suc n \<le> m"
        then obtain k where m: "m = Suc k" and k: "n \<le> k" by (cases m) auto
        obtain e w where acc: "acc = (e, w)" by (cases acc)
        from n k obtain r where "validateValueAgainstSchema k val (resolveRef ref spec) spec path (e, w) = Returns r"
          unfolding returns_from_def by blast
        with True ref t nn show "\<exists>r. validateValueAgainstSchema m val schema spec path acc = Returns r"
          unfolding m acc by (subst validateValueAgainstSchema.simps(2)) simp
      qed
      then show ?thesis by blast
    next
      case f: False
      have "returns_from 1 spec val schema"
        unfolding returns_from_def
      proof (intro allI impI)
        fix m :: nat and path and acc :: collectors
        assume "1 \<le> m"
        then obtain k where m: "m = Suc k" by (cases m) auto
        obtain e w where acc: "acc = (e, w)" by (cases acc)
        from True ref f nn show "\<exists>r. validateValueAgainstSchema m val schema spec path acc = Returns r"
          unfolding m acc by (subst validateValueAgainstSchema.simps(2)) simp
      qed
      then show ?thesis by blast
    qed
  next
    case noref: False
    show ?thesis
    proof (cases "truthy_opt (schema_field schema ''oneOf'') \<or> truthy_opt (schema_field schema ''anyOf'')")
      case un: True
      with noref shape obtain schemas where ch: "chosen = Some (JArr schemas)"
        unfolding chosen_def declared_shape_def
        by (cases "if truthy_opt (schema_field schema ''oneOf'') then schema_field schema ''oneOf''
               else schema_field schema ''anyOf''") (auto split: jsv.splits)
      with noref un have "same_value_steps spec schema = schemas"
        unfolding chosen_def by (simp add: same_value_steps_def)
      with same have "\<And>s. s \<in> set schemas \<Longrightarrow> \<exists>n. returns_from n spec val s" by simp
      then obtain N where N: "\<forall>s \<in> set schemas. returns_from N spec val s"
        using returns_from_all[of schemas spec "\<lambda>s. val" "\<lambda>s. s"] by blast
      have "returns_from (Suc N) spec val schema"
        unfolding returns_from_def
      proof (intro allI impI)
        fix m :: nat and path and acc :: collectors
        assume "Suc N \<le> m"
        then obtain k where m: "m = Suc k" and k: "N \<le> k" by (cases m) auto
        obtain e w where acc: "acc = (e, w)" by (cases acc)
        have "\<And>s. s \<in> set schemas \<Longrightarrow> \<exists>r. validateValueAgainstSchema k val s spec path ([], []) = Returns r"
          using N k unfolding returns_from_def by blast
        then obtain b where "some_match (\<lambda>s. validateValueAgainstSchema k val s spec path ([], [])) schemas = Returns b"
          using some_match_returns[of schemas "\<lambda>s. validateValueAgainstSchema k val s spec path ([], [])"] by blast
        with noref un nn ch[unfolded chosen_def]
        show "\<exists>r. validateValueAgainstSchema m val schema spec path acc = Returns r"
          unfolding m acc
          by (subst validateValueAgainstSchema.simps(2)) (simp add: and_then_def)
      qed
      then show ?thesis by blast
    next
      case noun: False
      show ?thesis
      proof (cases "truthy_opt (schema_field schema ''allOf'')")
        case al: True
        with noref noun shape obtain schemas where it: "iterate (the (schema_field schema ''allOf'')) = Inr schemas"
          unfolding declared_shape_def
          by (cases "iterate (the (schema_field schema ''allOf''))") auto
        with noref noun al have "same_value_steps spec schema = schemas"
          by (simp add: same_value_steps_def)
        with same have "\<And>s. s \<in> set schemas \<Longrightarrow> \<exists>n. returns_from n spec val s" by simp
        then obtain N where N: "\<forall>s \<in> set schemas. returns_from N spec val s"
          using returns_from_all[of schemas spec "\<lambda>s. val" "\<lambda>s. s"] by blast
        have "returns_from (Suc N) spec val schema"
          unfolding returns_from_def
        proof (intro allI impI)
          fix m :: nat and path and acc :: collectors
          assume "Suc N \<le> m"
          then obtain k where m: "m = Suc k" and k: "N \<le> k" by (cases m) auto
          obtain e w where acc: "acc = (e, w)" by (cases acc)
          have "\<And>s acc. s \<in> set schemas \<Longrightarrow> \<exists>r. validateValueAgainstSchema k val s spec path acc = Returns r"
            using N k unfolding returns_from_def by blast
          then obtain r where "for_each (\<lambda>s. validateValueAgainstSchema k val s spec path) schemas (e, w) = Returns r"
            using for_each_returns[of schemas "\<lambda>s. validateValueAgainstSchema k val s spec path" "(e, w)"] by blast
          with noref noun al nn it show "\<exists>r. validateValueAgainstSchema m val schema spec path acc = Returns r"
            unfolding m acc
            by (subst validateValueAgainstSchema.simps(2)) (simp add: and_then_def or_throw_def)
        qed
        then show ?thesis by blast
      next
        case noal: False
        from noun have plain: "schema \<noteq> JNull" "\<not> truthy_opt (schema_field schema ''$ref'')"
          "\<not> truthy_opt (schema_field schema ''oneOf'')" "\<not> truthy_opt (schema_field schema ''anyOf'')"
          "\<not> truthy_opt (schema_field schema ''allOf'')"
          using nn noref noal by simp_all
        define items where "items = the (schema_field schema ''items'')"
        define props where "props = the (schema_field schema ''properties'')"
        define arr where "arr = (schema_field schema ''type'' = Some (JStr ''array'') \<and> isArray val
                \<and> truthy_opt (schema_field schema ''items''))"
        define obj where "obj = (schema_field schema ''type'' = Some (JStr ''object'') \<and> js_typeof val = ''object'' \<and> val \<noteq> JNull
                  \<and> truthy_opt (schema_field schema ''properties''))"
        define present where "present = filter (\<lambda>x. has_property val (fst x)) (object_entries props)"
        have type_ok: "truthy_opt (schema_field schema ''type'') \<Longrightarrow>
            \<exists>t. to_string (the (schema_field schema ''type'')) = Inr t"
          using shape plain unfolding declared_shape_def printable_def
          by (cases "to_string (the (schema_field schema ''type''))") auto
        have "\<exists>n1. arr \<longrightarrow> (\<forall>x \<in> set (object_entries val). returns_from n1 spec (snd x) items)"
        proof (cases arr)
          case True
          then have "items \<in> set (sub_value_steps schema)"
            using plain unfolding arr_def items_def by (simp add: sub_value_steps_def)
          moreover have "\<And>x. x \<in> set (object_entries val) \<Longrightarrow> vrank (snd x) < vrank val"
            using True vrank_entry[of val] unfolding arr_def by (metis prod.collapse)
          ultimately have "\<And>x. x \<in> set (object_entries val) \<Longrightarrow> \<exists>n. returns_from n spec (snd x) items"
            using part by blast
          then show ?thesis
            using returns_from_all[of "object_entries val" spec snd "\<lambda>x. items"] by blast
        next
          case False
          then show ?thesis by simp
        qed
        then obtain n1 where n1: "arr \<longrightarrow> (\<forall>x \<in> set (object_entries val). returns_from n1 spec (snd x) items)"
          by blast
        have "\<exists>n2. obj \<longrightarrow> (\<forall>x \<in> set present. returns_from n2 spec (the (get_property val (fst x))) (snd x))"
        proof (cases obj)
          case True
          have "\<exists>n. returns_from n spec (the (get_property val (fst x))) (snd x)" if x: "x \<in> set present" for x
          proof -
            from x have e: "x \<in> set (object_entries props)" and h: "has_property val (fst x)"
              unfolding present_def by auto
            from h obtain v where v: "get_property val (fst x) = Some v"
              unfolding has_property_def by auto
            with True have "vrank v < vrank val"
              unfolding obj_def using vrank_property[of val "fst x" v] by simp
            moreover from e True have "snd x \<in> set (sub_value_steps schema)"
              using plain unfolding obj_def props_def by (auto simp: sub_value_steps_def object_values_def)
            ultimately show ?thesis using part v by simp
          qed
          then show ?thesis
            using returns_from_all[of present spec "\<lambda>x. the (get_property val (fst x))" snd] by blast
        next
          case False
          then show ?thesis by simp
        qed
        then obtain n2 where
          n2: "obj \<longrightarrow> (\<forall>x \<in> set present. returns_from n2 spec (the (get_property val (fst x))) (snd x))"
          by blast
        have req: "obj \<Longrightarrow> \<exists>reqs. (if truthy_opt (schema_field schema ''required'')
                                   then iterate (the (schema_field schema ''required'')) else Inr []) = Inr reqs
                      \<and> list_all printable reqs"
          using shape plain unfolding declared_shape_def obj_def
          by (cases "iterate (the (schema_field schema ''required''))") auto
        have isobj: "obj \<Longrightarrow> is_object props"
          using shape plain unfolding declared_shape_def obj_def props_def by auto
        have "returns_from (Suc (max n1 n2)) spec val schema"
          unfolding returns_from_def
        proof (intro allI impI)
          fix m :: nat and path and acc :: collectors
          assume "Suc (max n1 n2) \<le> m"
          then obtain k where m: "m = Suc k" and k1: "n1 \<le> k" and k2: "n2 \<le> k" by (cases m) auto
          obtain e w where acc: "acc = (e, w)" by (cases acc)
          have a1: "\<exists>r. (if schema_field schema ''type'' = Some (JStr ''array'') \<and> isArray val
                \<and> truthy_opt (schema_field schema ''items'')
           then for_each (\<lambda>(index, item).
                    validateValueAgainstSchema k item (the (schema_field schema ''items'')) spec
                      (path @ ''['' @ index @ '']''))
                  (object_entries val) (e, w)
           else Returns (e, w)) = Returns r"
          proof (cases arr)
            case True
            with n1 k1 have "\<And>x acc. x \<in> set (object_entries val) \<Longrightarrow> \<exists>r. (case x of (index, item) \<Rightarrow>
                    validateValueAgainstSchema k item items spec (path @ ''['' @ index @ '']'')) acc = Returns r"
              unfolding returns_from_def by (fastforce split: prod.splits)
            then have "\<exists>r. for_each (\<lambda>(index, item).
                    validateValueAgainstSchema k item items spec (path @ ''['' @ index @ '']''))
                  (object_entries val) (e, w) = Returns r"
              by (intro for_each_returns) blast
            with True show ?thesis unfolding arr_def items_def by simp
          next
            case False
            then show ?thesis unfolding arr_def by auto
          qed
          have a2: "\<exists>r. (if schema_field schema ''type'' = Some (JStr ''object'') \<and> js_typeof val = ''object'' \<and> val \<noteq> JNull
                  \<and> truthy_opt (schema_field schema ''properties'')
             then
               and_then (or_throw (if truthy_opt (schema_field schema ''required'')
                                   then iterate (the (schema_field schema ''required'')) else Inr []))
                 (\<lambda>reqs.
                    and_then (or_throw (check_required path val reqs e1))
                      (\<lambda>checked.
                         and_then
                           (for_each (\<lambda>(key, propSchema).
                                if has_property val key
                                then validateValueAgainstSchema k (the (get_property val key)) propSchema spec
                                       (path @ ''.'' @ key)
                                else Returns)
                              (object_entries (the (schema_field schema ''properties'')))
                              (checked, w1))
                           (\<lambda>(errors2, warnings2).
                              if \<not> truthy_opt (schema_field schema ''additionalProperties'')
                              then and_then
                                     (or_throw (check_unknown path val (the (schema_field schema ''properties'')) warnings2))
                                     (\<lambda>warnings3. Returns (errors2, warnings3))
                              else Returns (errors2, warnings2))))
             else Returns (e1, w1)) = Returns r" for e1 w1 :: "string list"
          proof (cases obj)
            case True
            with req obtain reqs where reqs: "(if truthy_opt (schema_field schema ''required'')
                                   then iterate (the (schema_field schema ''required'')) else Inr []) = Inr reqs"
              and pr: "list_all printable reqs" by blast
            from all_printable[OF pr] obtain checked where
              checked: "check_required path val reqs e1 = Inr checked"
              by (auto simp: check_required_def map_result_def)
            from True n2 k2 have "\<And>x acc. x \<in> set (object_entries props) \<Longrightarrow> \<exists>r. (case x of (key, propSchema) \<Rightarrow>
                           if has_property val key
                           then validateValueAgainstSchema k (the (get_property val key)) propSchema spec
                                  (path @ ''.'' @ key)
                           else Returns) acc = Returns r"
              unfolding returns_from_def present_def by (fastforce split: prod.splits)
            then obtain r2 where r2: "for_each (\<lambda>(key, propSchema).
                           if has_property val key
                           then validateValueAgainstSchema k (the (get_property val key)) propSchema spec
                                  (path @ ''.'' @ key)
                           else Returns)
                         (object_entries props)
                         (checked, w1) = Returns r2"
              using for_each_returns[of "object_entries props" _ "(checked, w1)"] by blast
            obtain e2 w2 where ew2: "r2 = (e2, w2)" by (cases r2)
            from True isobj have "\<exists>w3. check_unknown path val props w2 = Inr w3"
              by (simp add: check_unknown_def)
            then obtain w3 where w3: "check_unknown path val props w2 = Inr w3" by blast
            from True reqs checked r2 ew2 w3 show ?thesis
              unfolding obj_def props_def by (simp add: and_then_def or_throw_def)
          next
            case False
            then show ?thesis unfolding obj_def by auto
          qed
          from a1 obtain r1 where r1: "(if schema_field schema ''type'' = Some (JStr ''array'') \<and> isArray val
                \<and> truthy_opt (schema_field schema ''items'')
           then for_each (\<lambda>(index, item).
                    validateValueAgainstSchema k item (the (schema_field schema ''items'')) spec
                      (path @ ''['' @ index @ '']''))
                  (object_entries val) (e, w)
           else Returns (e, w)) = Returns r1" by blast
          obtain e1 w1 where ew1: "r1 = (e1, w1)" by (cases r1)
          from a2[of e1 w1] obtain r where r: "(if schema_field schema ''type'' = Some (JStr ''object'') \<and> js_typeof val = ''object'' \<and> val \<noteq> JNull
                  \<and> truthy_opt (schema_field schema ''properties'')
             then
               and_then (or_throw (if truthy_opt (schema_field schema ''required'')
                                   then iterate (the (schema_field schema ''required'')) else Inr []))
                 (\<lambda>reqs.
                    and_then (or_throw (check_required path val reqs e1))
                      (\<lambda>checked.
                         and_then
                           (for_each (\<lambda>(key, propSchema).
                                if has_property val key
                                then validateValueAgainstSchema k (the (get_property val key)) propSchema spec
                                       (path @ ''.'' @ key)
                                else Returns)
                              (object_entries (the (schema_field schema ''properties'')))
                              (checked, w1))
                           (\<lambda>(errors2, warnings2).
                              if \<not> truthy_opt (schema_field schema ''additionalProperties'')
                              then and_then
                                     (or_throw (check_unknown path val (the (schema_field schema ''properties'')) warnings2))
                                     (\<lambda>warnings3. Returns (errors2, warnings3))
                              else Returns (errors2, warnings2))))
             else Returns (e1, w1)) = Returns r" by blast
          show "\<exists>r. validateValueAgainstSchema m val schema spec path acc = Returns r"
          proof (cases "truthy_opt (schema_field schema ''type'')
              \<and> JStr (getTypeOf val) \<notin> set (map normalize_type (expectedTypes (the (schema_field schema ''type''))))")
            case True
            with type_ok obtain t where "to_string (the (schema_field schema ''type'')) = Inr t" by blast
            with True show ?thesis unfolding m acc validate_plain[OF plain]
              by (simp add: or_throw_def and_then_def)
          next
            case False
            have "validateValueAgainstSchema m val schema spec path acc = Returns r"
              unfolding m acc validate_plain[OF plain]
              by (simp only: False if_False r1 ew1 and_then_Returns prod.case r)
            then show ?thesis by blast
          qed
        qed
        then show ?thesis by blast
      qed
    qed
  qed
qed

lemma validate_returns:
  assumes "\<And>node. visits spec schema node \<Longrightarrow> declared_shape node \<and> chain_ends spec node"
  shows "\<exists>n. returns_from n spec val schema"
  using assms
proof (induction "vrank val" arbitrary: val schema rule: less_induct)
  case less
  show ?case
  proof (rule validate_returns_step)
    fix v' s'
    assume "vrank v' < vrank val"
      and "\<And>node. visits spec s' node \<Longrightarrow> declared_shape node \<and> chain_ends spec node"
    then show "\<exists>n. returns_from n spec v' s'" by (rule less.hyps)
  next
    show "chain_ends spec schema" using less.prems[OF visits_start] by simp
  next
    fix node assume "visits spec schema node"
    then show "declared_shape node \<and> chain_ends spec node" by (rule less.prems)
  qed
qed

lemma resolve_cyclic: "resolveRef ''#/components/schemas/A'' cyclic_spec = cyclic_ref"
  by code_simp

lemma resolve_pet: "resolveRef ''#/components/schemas/Pet'' pet_spec = pet_schema"
  by code_simp

lemma cyclic_out_of_fuel: "validateValueAgainstSchema n val cyclic_ref cyclic_spec path acc = OutOfFuel"
proof (induction n)
  case 0
  then show ?case by simp
next
  case (Suc n)
  obtain e w where acc: "acc = (e, w)" by (cases acc)
  have f: "schema_field cyclic_ref ''$ref'' = Some (JStr ''#/components/schemas/A'')"
    by (simp add: cyclic_ref_def schema_field_def)
  have t: "truthy (resolveRef ''#/components/schemas/A'' cyclic_spec)"
    by (simp add: resolve_cyclic) (simp add: cyclic_ref_def)
  have nn: "cyclic_ref \<noteq> JNull" by (simp add: cyclic_ref_def)
  show ?case unfolding acc
    apply (subst validateValueAgainstSchema.simps(2))
    apply (simp only: f nn t if_True if_False truthy_opt_def option.case truthy.simps jsv.case)
    apply (simp add: resolve_cyclic Suc[unfolded acc])
    done
qed

lemma tree_steps:
  "same_value_steps tree_spec tree_ref = [tree_schema]" "sub_value_steps tree_ref = []"
  "same_value_steps tree_spec tree_schema = []" "sub_value_steps tree_schema = [tree_ref]"
  by code_simp+

lemma tree_visits: "visits tree_spec tree_ref node \<Longrightarrow> node = tree_ref \<or> node = tree_schema"
  by (induction rule: visits.induct) (auto simp: tree_steps)

lemma tree_chain_ends: "chain_ends tree_spec tree_schema" "chain_ends tree_spec tree_ref"
proof -
  show s: "chain_ends tree_spec tree_schema"
    by (rule chain_step) (simp add: tree_steps)
  show "chain_ends tree_spec tree_ref"
    by (rule chain_step) (simp add: tree_steps s)
qed

lemma tree_shapes: "declared_shape tree_schema" "declared_shape tree_ref"
  by code_simp+

text \<open>
  Claim C1, as the code has it. Take a schema node such that every node the validator
  can reach from it, through \<open>$ref\<close>, unions, \<open>allOf\<close>, \<open>items\<close> and \<open>properties\<close>, has the
  shape on which the code does not throw, and is the start of no endless chain of \<open>$ref\<close>,
  union and \<open>allOf\<close> steps (a schema may reach itself through \<open>items\<close> or \<open>properties\<close>).
  Then for every value the recursion is finite: there is a depth from which the call
  returns, for every path and pair of collectors, with an error list and a warning list.
  On a call stack that admits less than that depth the engine ends the call with a
  \<open>RangeError\<close>. Nothing in the validator bounds the depth of a \<open>$ref\<close> chain, so on a chain
  that cycles no depth is enough (the theorem after the next).
\<close>

theorem validate_returns_when_chains_end:
  assumes "\<And>node. visits spec schema node \<Longrightarrow> declared_shape node \<and> chain_ends spec node"
  shows "\<exists>n. \<forall>m \<ge> n. \<forall>path errors warnings. \<exists>errors' warnings'.
      validateValueAgainstSchema m val schema spec path (errors, warnings) = Returns (errors', warnings')"
proof -
  from assms obtain n where "returns_from n spec val schema" using validate_returns by blast
  then have "\<forall>m \<ge> n. \<forall>path errors warnings. \<exists>errors' warnings'.
      validateValueAgainstSchema m val schema spec path (errors, warnings) = Returns (errors', warnings')"
    unfolding returns_from_def by (metis surj_pair)
  then show ?thesis by blast
qed

theorem validate_returns_when_chains_end_witness:
  "{node. visits tree_spec tree_ref node} = {tree_ref, tree_schema}
   \<and> declared_shape tree_ref \<and> chain_ends tree_spec tree_ref
   \<and> declared_shape tree_schema \<and> chain_ends tree_spec tree_schema
   \<and> (\<exists>n. \<forall>m \<ge> n. \<forall>path errors warnings. \<exists>errors' warnings'.
        validateValueAgainstSchema m (JArr [JArr [], JArr [JArr [JNum ''7'']]]) tree_ref tree_spec path (errors, warnings)
          = Returns (errors', warnings'))
   \<and> validateValueAgainstSchema 8 (JArr [JArr [], JArr [JArr [JNum ''7'']]]) tree_ref tree_spec ''body'' ([], []) =
        Returns ([''body[1][0][0]: expected array, got number''], [])
   \<and> validateValueAgainstSchema 7 (JArr [JArr [], JArr [JArr [JNum ''7'']]]) tree_ref tree_spec ''body'' ([], []) =
        OutOfFuel"
proof -
  have r: "visits tree_spec tree_ref tree_ref" by (rule visits_start)
  have "visits tree_spec tree_ref tree_schema"
    by (rule visits_step[OF r]) (simp add: tree_steps)
  with r tree_visits have v: "{node. visits tree_spec tree_ref node} = {tree_ref, tree_schema}"
    by blast
  have h: "declared_shape node \<and> chain_ends tree_spec node" if "visits tree_spec tree_ref node" for node
    using tree_visits[OF that] tree_shapes tree_chain_ends by auto
  have e: "validateValueAgainstSchema 8 (JArr [JArr [], JArr [JArr [JNum ''7'']]]) tree_ref tree_spec ''body'' ([], []) =
        Returns ([''body[1][0][0]: expected array, got number''], [])"
    by code_simp
  have f: "validateValueAgainstSchema 7 (JArr [JArr [], JArr [JArr [JNum ''7'']]]) tree_ref tree_spec ''body'' ([], []) =
        OutOfFuel"
    by code_simp
  have t: "\<exists>n. \<forall>m \<ge> n. \<forall>path errors warnings. \<exists>errors' warnings'.
        validateValueAgainstSchema m (JArr [JArr [], JArr [JArr [JNum ''7'']]]) tree_ref tree_spec path (errors, warnings)
          = Returns (errors', warnings')"
    by (rule validate_returns_when_chains_end) (rule h)
  show ?thesis
    apply (intro conjI)
           apply (rule v)
          apply (rule tree_shapes(2))
         apply (rule tree_chain_ends(2))
        apply (rule tree_shapes(1))
       apply (rule tree_chain_ends(1))
      apply (rule t)
     apply (rule e)
    apply (rule f)
    done
qed

text \<open>Validating against a \<open>$ref\<close> that resolves to itself runs out of every fuel: no depth
  guard stops the recursion (in the engine it ends when the call stack overflows).\<close>

theorem validate_cyclic_ref_never_returns:
  "\<forall>n. validateValueAgainstSchema n (JStr ''x'') cyclic_ref cyclic_spec ''body'' ([], []) = OutOfFuel"
  by (simp add: cyclic_out_of_fuel)

text \<open>
  Claim C2. Validating \<open>null\<close> against a schema node that has no \<open>$ref\<close> and no \<open>oneOf\<close>,
  \<open>anyOf\<close> or \<open>allOf\<close> returns with the collectors unchanged, whatever type the node
  declares: no error is added.
\<close>

theorem validate_null_always_accepted:
  "schema \<noteq> JNull \<Longrightarrow> \<not> truthy_opt (schema_field schema ''$ref'') \<Longrightarrow>
   \<not> truthy_opt (schema_field schema ''oneOf'') \<Longrightarrow> \<not> truthy_opt (schema_field schema ''anyOf'') \<Longrightarrow>
   \<not> truthy_opt (schema_field schema ''allOf'') \<Longrightarrow>
   validateValueAgainstSchema (Suc n) JNull schema spec path (errors, warnings) = Returns (errors, warnings)"
  by (simp add: validate_plain and_then_Returns)

theorem validate_null_always_accepted_witness:
  "string_schema \<noteq> JNull \<and> \<not> truthy_opt (schema_field string_schema ''$ref'')
   \<and> \<not> truthy_opt (schema_field string_schema ''oneOf'') \<and> \<not> truthy_opt (schema_field string_schema ''anyOf'')
   \<and> \<not> truthy_opt (schema_field string_schema ''allOf'')
   \<and> validateValueAgainstSchema (Suc 0) JNull string_schema pet_spec ''body'' ([], []) = Returns ([], [])
   \<and> pet_schema \<noteq> JNull \<and> \<not> truthy_opt (schema_field pet_schema ''$ref'')
   \<and> \<not> truthy_opt (schema_field pet_schema ''oneOf'') \<and> \<not> truthy_opt (schema_field pet_schema ''anyOf'')
   \<and> \<not> truthy_opt (schema_field pet_schema ''allOf'')
   \<and> validateValueAgainstSchema (Suc 0) JNull pet_schema pet_spec ''body'' ([], []) = Returns ([], [])"
proof -
  have a: "string_schema \<noteq> JNull" "\<not> truthy_opt (schema_field string_schema ''$ref'')"
   "\<not> truthy_opt (schema_field string_schema ''oneOf'')" "\<not> truthy_opt (schema_field string_schema ''anyOf'')"
   "\<not> truthy_opt (schema_field string_schema ''allOf'')"
    by (simp_all add: string_schema_def schema_field_def truthy_opt_def)
  have b: "pet_schema \<noteq> JNull" "\<not> truthy_opt (schema_field pet_schema ''$ref'')"
   "\<not> truthy_opt (schema_field pet_schema ''oneOf'')" "\<not> truthy_opt (schema_field pet_schema ''anyOf'')"
   "\<not> truthy_opt (schema_field pet_schema ''allOf'')"
    by (simp_all add: pet_schema_def schema_field_def truthy_opt_def)
  from a b validate_null_always_accepted[OF a, of 0 pet_spec "''body''" "[]" "[]"]
    validate_null_always_accepted[OF b, of 0 pet_spec "''body''" "[]" "[]"]
  show ?thesis by (intro conjI)
qed

lemma some_match_value:
  "some_match f ss = Returns b \<Longrightarrow> b = (\<exists>s \<in> set ss. \<exists>w. f s = Returns ([], w))"
proof (induction ss)
  case Nil
  then show ?case by simp
next
  case (Cons s ss)
  show ?case
  proof (cases "f s")
    case OutOfFuel
    with Cons.prems show ?thesis by (simp add: and_then_def)
  next
    case (Throws e)
    with Cons.prems show ?thesis by (simp add: and_then_def)
  next
    case (Returns r)
    obtain e w where r: "r = (e, w)" by (cases r)
    show ?thesis
    proof (cases "e = []")
      case True
      with Returns r Cons.prems have "b = True" by (simp add: and_then_def)
      with True Returns r show ?thesis by auto
    next
      case False
      with Returns r Cons.prems have "some_match f ss = Returns b" by (simp add: and_then_def)
      with Cons.IH have "b = (\<exists>s \<in> set ss. \<exists>w. f s = Returns ([], w))" by simp
      with False Returns r show ?thesis by auto
    qed
  qed
qed

lemma validate_union:
  assumes "\<not> truthy_opt (schema_field schema ''$ref'')"
    and "(if truthy_opt (schema_field schema ''oneOf'') then schema_field schema ''oneOf''
          else schema_field schema ''anyOf'') = Some (JArr schemas)"
  shows "validateValueAgainstSchema (Suc n) val schema spec path (errors, warnings) =
     and_then (some_match (\<lambda>s. validateValueAgainstSchema n val s spec path ([], [])) schemas)
       (\<lambda>matches. Returns (errors,
          if \<not> matches \<and> 0 < length schemas then warnings @ [no_match_message path] else warnings))"
proof -
  from assms(2) have un: "truthy_opt (schema_field schema ''oneOf'') \<or> truthy_opt (schema_field schema ''anyOf'')"
    by (auto simp: truthy_opt_def split: if_splits)
  then have nn: "schema \<noteq> JNull" using truthy_opt_not_null by blast
  show ?thesis
    by (subst validateValueAgainstSchema.simps(2)) (simp only: assms un nn if_True if_False option.case jsv.case)
qed

text \<open>
  Claim C3. On a node without \<open>$ref\<close> whose \<open>oneOf\<close> (or, when that is absent, \<open>anyOf\<close>) is
  a list of alternatives, each alternative is validated with empty collectors of its own;
  when the call returns, the error list is the one passed in, and the warning list has
  grown by exactly one warning if the list is not empty and no alternative returned
  without errors, and is unchanged otherwise; the call returns whenever the alternatives
  do. Validating \<open>true\<close> against \<open>{oneOf: [{type: string}, {type: number}]}\<close> gives no
  error and one warning.
\<close>

theorem validate_union_lenient:
  assumes "\<not> truthy_opt (schema_field schema ''$ref'')"
    and "(if truthy_opt (schema_field schema ''oneOf'') then schema_field schema ''oneOf''
          else schema_field schema ''anyOf'') = Some (JArr schemas)"
  shows "(\<forall>errors' warnings'.
            validateValueAgainstSchema (Suc n) val schema spec path (errors, warnings) = Returns (errors', warnings')
            \<longrightarrow> errors' = errors
              \<and> warnings' =
                  (if schemas \<noteq> []
                      \<and> \<not> (\<exists>s \<in> set schemas. \<exists>w. validateValueAgainstSchema n val s spec path ([], []) = Returns ([], w))
                   then warnings @ [no_match_message path] else warnings))
       \<and> ((\<forall>s \<in> set schemas. \<exists>r. validateValueAgainstSchema n val s spec path ([], []) = Returns r)
            \<longrightarrow> (\<exists>warnings'. validateValueAgainstSchema (Suc n) val schema spec path (errors, warnings)
                    = Returns (errors, warnings')))
       \<and> validateValueAgainstSchema 2 (JBool True) union_schema spec path ([], []) =
            Returns ([], [no_match_message path])"
proof (intro conjI allI impI)
  fix errors' warnings'
  assume r: "validateValueAgainstSchema (Suc n) val schema spec path (errors, warnings) = Returns (errors', warnings')"
  then obtain b where b: "some_match (\<lambda>s. validateValueAgainstSchema n val s spec path ([], [])) schemas = Returns b"
    unfolding validate_union[OF assms]
    by (cases "some_match (\<lambda>s. validateValueAgainstSchema n val s spec path ([], [])) schemas")
       (simp_all add: and_then_def)
  from some_match_value[OF b]
  have bv: "b = (\<exists>s \<in> set schemas. \<exists>w. validateValueAgainstSchema n val s spec path ([], []) = Returns ([], w))" .
  from r b have "errors' = errors" and
    w: "warnings' = (if \<not> b \<and> 0 < length schemas then warnings @ [no_match_message path] else warnings)"
    unfolding validate_union[OF assms] by (simp_all add: and_then_Returns)
  then show "errors' = errors" by simp
  from w bv show "warnings' =
                  (if schemas \<noteq> []
                      \<and> \<not> (\<exists>s \<in> set schemas. \<exists>w. validateValueAgainstSchema n val s spec path ([], []) = Returns ([], w))
                   then warnings @ [no_match_message path] else warnings)"
    by auto
next
  assume "\<forall>s \<in> set schemas. \<exists>r. validateValueAgainstSchema n val s spec path ([], []) = Returns r"
  then obtain b where "some_match (\<lambda>s. validateValueAgainstSchema n val s spec path ([], [])) schemas = Returns b"
    using some_match_returns[of schemas "\<lambda>s. validateValueAgainstSchema n val s spec path ([], [])"] by blast
  then show "\<exists>warnings'. validateValueAgainstSchema (Suc n) val schema spec path (errors, warnings)
                    = Returns (errors, warnings')"
    unfolding validate_union[OF assms] by (simp add: and_then_Returns)
next
  have u: "\<not> truthy_opt (schema_field union_schema ''$ref'')"
    "(if truthy_opt (schema_field union_schema ''oneOf'') then schema_field union_schema ''oneOf''
          else schema_field union_schema ''anyOf'') = Some (JArr [string_schema, number_schema])"
    by (simp_all add: union_schema_def schema_field_def truthy_opt_def)
  have s: "validateValueAgainstSchema (Suc 0) (JBool True) string_schema spec path ([], []) =
      Returns ([type_message path ''string'' ''boolean''], [])"
    by (subst validateValueAgainstSchema.simps(2))
       (simp add: string_schema_def schema_field_def truthy_opt_def expectedTypes_def normalize_type_def
          or_throw_def and_then_def)
  have m: "validateValueAgainstSchema (Suc 0) (JBool True) number_schema spec path ([], []) =
      Returns ([type_message path ''number'' ''boolean''], [])"
    by (subst validateValueAgainstSchema.simps(2))
       (simp add: number_schema_def schema_field_def truthy_opt_def expectedTypes_def normalize_type_def
          or_throw_def and_then_def)
  have "2 = Suc (Suc 0)" by simp
  then show "validateValueAgainstSchema 2 (JBool True) union_schema spec path ([], []) =
            Returns ([], [no_match_message path])"
    by (simp only: validate_union[OF u]) (simp add: s m and_then_Returns)
qed

theorem validate_union_lenient_witness:
  "\<not> truthy_opt (schema_field union_schema ''$ref'')
   \<and> (if truthy_opt (schema_field union_schema ''oneOf'') then schema_field union_schema ''oneOf''
          else schema_field union_schema ''anyOf'') = Some (JArr [string_schema, number_schema])
   \<and> validateValueAgainstSchema 2 (JBool True) union_schema pet_spec ''body'' ([], []) =
        Returns ([], [no_match_message ''body''])
   \<and> validateValueAgainstSchema 2 (JStr ''text'') union_schema pet_spec ''body'' ([''earlier''], []) =
        Returns ([''earlier''], [])
   \<and> (\<exists>w. validateValueAgainstSchema 1 (JStr ''text'') string_schema pet_spec ''body'' ([], []) = Returns ([], w))"
proof -
  have u: "\<not> truthy_opt (schema_field union_schema ''$ref'')"
    "(if truthy_opt (schema_field union_schema ''oneOf'') then schema_field union_schema ''oneOf''
          else schema_field union_schema ''anyOf'') = Some (JArr [string_schema, number_schema])"
    by (simp_all add: union_schema_def schema_field_def truthy_opt_def)
  have e: "validateValueAgainstSchema 2 (JStr ''text'') union_schema pet_spec ''body'' ([''earlier''], []) =
        Returns ([''earlier''], [])"
    by code_simp
  have s: "validateValueAgainstSchema 1 (JStr ''text'') string_schema pet_spec ''body'' ([], []) = Returns ([], [])"
    by code_simp
  from validate_union_lenient[OF u, of 1 "JStr ''text''" pet_spec "''body''" "[''earlier'']" "[]"]
  have "validateValueAgainstSchema 2 (JBool True) union_schema pet_spec ''body'' ([], []) =
        Returns ([], [no_match_message ''body''])" by blast
  with u e s show ?thesis by blast
qed

lemma for_each_cong:
  "(\<And>x acc. x \<in> set xs \<Longrightarrow> f x acc = g x acc) \<Longrightarrow> for_each f xs acc = for_each g xs acc"
proof (induction xs arbitrary: acc)
  case Nil
  then show ?case by simp
next
  case (Cons x xs)
  have "f x acc = g x acc" using Cons.prems by simp
  moreover have "\<And>acc'. for_each f xs acc' = for_each g xs acc'"
    using Cons.IH Cons.prems by simp
  ultimately show ?case by (cases "g x acc") (simp_all add: and_then_def)
qed

lemma schema_field_js_set:
  "schema_field (JObj (js_set fs k v)) k' = (if k' = k then Some v else schema_field (JObj fs) k')"
  by (simp add: schema_field_def map_of_js_set)

lemma get_property_js_set_other:
  "key \<noteq> k \<Longrightarrow> get_property (JObj (js_set kvs k x)) key = get_property (JObj kvs) key"
  by (simp add: map_of_js_set)

lemma get_property_js_delete_other:
  "key \<noteq> k \<Longrightarrow> get_property (JObj (js_delete kvs k)) key = get_property (JObj kvs) key"
  by (simp add: map_of_js_delete)

lemma has_property_js_set: "has_property (JObj (js_set kvs k x)) key = (key = k \<or> has_property (JObj kvs) key)"
  by (auto simp: has_property_def map_of_js_set split: option.splits)

lemma all_or_throw_keys:
  "all_or_throw (map f xs) = Inr ys \<Longrightarrow>
   ys = concat (map (\<lambda>x. case f x of Inr y \<Rightarrow> [y] | Inl e \<Rightarrow> []) xs)"
proof (induction xs arbitrary: ys)
  case Nil
  then show ?case by simp
next
  case (Cons x xs)
  show ?case
  proof (cases "f x")
    case (Inl e)
    with Cons.prems show ?thesis by simp
  next
    case (Inr y)
    with Cons.prems obtain zs where zs: "all_or_throw (map f xs) = Inr zs" and ys: "ys = y # zs"
      by (cases "all_or_throw (map f xs)") auto
    from Cons.IH[OF zs] Inr ys show ?thesis by simp
  qed
qed

lemma validate_open_object_agree:
  assumes plain: "schema \<noteq> JNull" "\<not> truthy_opt (schema_field schema ''$ref'')"
    "\<not> truthy_opt (schema_field schema ''oneOf'')" "\<not> truthy_opt (schema_field schema ''anyOf'')"
    "\<not> truthy_opt (schema_field schema ''allOf'')"
    and ap: "truthy_opt (schema_field schema ''additionalProperties'')"
    and decl: "\<And>key. key \<in> set (declared_keys schema) \<Longrightarrow> get_property (JObj kvs1) key = get_property (JObj kvs2) key"
    and reqd: "\<And>key. key \<in> set (required_keys schema) \<Longrightarrow> has_property (JObj kvs1) key = has_property (JObj kvs2) key"
  shows "validateValueAgainstSchema n (JObj kvs1) schema spec path acc =
         validateValueAgainstSchema n (JObj kvs2) schema spec path acc"
proof (cases n)
  case 0
  then show ?thesis by simp
next
  case (Suc k)
  obtain e w where acc: "acc = (e, w)" by (cases acc)
  define props where "props = the (schema_field schema ''properties'')"
  define F where "F = (\<lambda>val (x :: string \<times> jsv). case x of (key, propSchema) \<Rightarrow>
                           if has_property val key
                           then validateValueAgainstSchema k (the (get_property val key)) propSchema spec
                                  (path @ ''.'' @ key)
                           else Returns)"
  show ?thesis
  proof (cases "schema_field schema ''type'' = Some (JStr ''object'') \<and> truthy_opt (schema_field schema ''properties'')")
    case False
    then show ?thesis unfolding Suc acc validate_plain[OF plain]
      by (auto simp: and_then_Returns)
  next
    case True
    then obtain p where p: "schema_field schema ''properties'' = Some p" 
      by (cases "schema_field schema ''properties''") (auto simp: truthy_opt_def)
    then have dk: "declared_keys schema = object_keys p" and pp: "props = p"
      by (simp_all add: declared_keys_def props_def)
    have Feq: "\<And>x a. x \<in> set (object_entries props) \<Longrightarrow> F (JObj kvs1) x a = F (JObj kvs2) x a"
    proof -
      fix x :: "string \<times> jsv" and a :: collectors
      assume x: "x \<in> set (object_entries props)"
      obtain key ps where kp: "x = (key, ps)" by (cases x)
      with x have "key \<in> set (declared_keys schema)"
        unfolding dk pp object_keys_def by force
      then have "get_property (JObj kvs1) key = get_property (JObj kvs2) key" by (rule decl)
      then show "F (JObj kvs1) x a = F (JObj kvs2) x a"
        unfolding F_def kp by (simp add: has_property_def)
    qed
    have loop: "\<And>a. for_each (F (JObj kvs1)) (object_entries props) a = for_each (F (JObj kvs2)) (object_entries props) a"
      by (rule for_each_cong) (rule Feq)
    show ?thesis
    proof (cases "(if truthy_opt (schema_field schema ''required'')
                   then iterate (the (schema_field schema ''required'')) else Inr [])")
      case (Inl err)
      then show ?thesis unfolding Suc acc validate_plain[OF plain]
        by (simp add: and_then_Returns or_throw_def and_then_def)
    next
      case (Inr reqs)
      have cr: "check_required path (JObj kvs1) reqs e1 = check_required path (JObj kvs2) reqs e1" for e1
      proof (cases "all_or_throw (map to_string reqs)")
        case (Inl err)
        then show ?thesis by (simp add: check_required_def map_result_def)
      next
        case keys: (Inr keys)
        have sub: "set keys \<subseteq> set (required_keys schema)"
        proof (cases "truthy_opt (schema_field schema ''required'')")
          case True
          with Inr have "required_keys schema =
              concat (map (\<lambda>req. case to_string req of Inr key \<Rightarrow> [key] | Inl e \<Rightarrow> []) reqs)"
            by (cases "schema_field schema ''required''") (auto simp: required_keys_def truthy_opt_def)
          with all_or_throw_keys[OF keys] show ?thesis by simp
        next
          case False
          with Inr keys show ?thesis by auto
        qed
        then have "\<And>key. key \<in> set keys \<Longrightarrow> has_property (JObj kvs1) key = has_property (JObj kvs2) key"
          using reqd by auto
        then have "filter (\<lambda>key. \<not> has_property (JObj kvs1) key) keys =
                   filter (\<lambda>key. \<not> has_property (JObj kvs2) key) keys"
          by (intro filter_cong) auto
        with keys show ?thesis by (simp add: check_required_def map_result_def)
      qed
      show ?thesis unfolding Suc acc validate_plain[OF plain]
        using True ap Inr cr loop[unfolded F_def props_def]
        by (simp add: and_then_Returns or_throw_def)
    qed
  qed
qed

lemma validate_additionalProperties_content:
  assumes plain: "\<not> truthy_opt (schema_field (JObj fs) ''$ref'')"
    "\<not> truthy_opt (schema_field (JObj fs) ''oneOf'')" "\<not> truthy_opt (schema_field (JObj fs) ''anyOf'')"
    "\<not> truthy_opt (schema_field (JObj fs) ''allOf'')"
    and ap: "truthy_opt (schema_field (JObj fs) ''additionalProperties'')"
    and a': "truthy a'"
  shows "validateValueAgainstSchema n val (JObj (js_set fs ''additionalProperties'' a')) spec path acc =
         validateValueAgainstSchema n val (JObj fs) spec path acc"
proof (cases n)
  case 0
  then show ?thesis by simp
next
  case (Suc k)
  obtain e w where acc: "acc = (e, w)" by (cases acc)
  have f: "\<And>name. name \<noteq> ''additionalProperties'' \<Longrightarrow>
     schema_field (JObj (js_set fs ''additionalProperties'' a')) name = schema_field (JObj fs) name"
    by (simp add: schema_field_js_set)
  have fs: "schema_field (JObj (js_set fs ''additionalProperties'' a')) ''$ref'' = schema_field (JObj fs) ''$ref''"
    "schema_field (JObj (js_set fs ''additionalProperties'' a')) ''oneOf'' = schema_field (JObj fs) ''oneOf''"
    "schema_field (JObj (js_set fs ''additionalProperties'' a')) ''anyOf'' = schema_field (JObj fs) ''anyOf''"
    "schema_field (JObj (js_set fs ''additionalProperties'' a')) ''allOf'' = schema_field (JObj fs) ''allOf''"
    "schema_field (JObj (js_set fs ''additionalProperties'' a')) ''type'' = schema_field (JObj fs) ''type''"
    "schema_field (JObj (js_set fs ''additionalProperties'' a')) ''items'' = schema_field (JObj fs) ''items''"
    "schema_field (JObj (js_set fs ''additionalProperties'' a')) ''properties'' = schema_field (JObj fs) ''properties''"
    "schema_field (JObj (js_set fs ''additionalProperties'' a')) ''required'' = schema_field (JObj fs) ''required''"
    by (simp_all add: f)
  have ap': "truthy_opt (schema_field (JObj (js_set fs ''additionalProperties'' a')) ''additionalProperties'')"
    using a' by (simp add: schema_field_js_set truthy_opt_def)
  have p1: "JObj fs \<noteq> JNull" "JObj (js_set fs ''additionalProperties'' a') \<noteq> JNull" by simp_all
  have plain': "\<not> truthy_opt (schema_field (JObj (js_set fs ''additionalProperties'' a')) ''$ref'')"
    "\<not> truthy_opt (schema_field (JObj (js_set fs ''additionalProperties'' a')) ''oneOf'')"
    "\<not> truthy_opt (schema_field (JObj (js_set fs ''additionalProperties'' a')) ''anyOf'')"
    "\<not> truthy_opt (schema_field (JObj (js_set fs ''additionalProperties'' a')) ''allOf'')"
    using plain by (simp_all add: fs)
  show ?thesis
    unfolding Suc acc validate_plain[OF p1(1) plain] validate_plain[OF p1(2) plain']
    by (simp only: fs ap ap' simp_thms if_False)
qed


text \<open>
  Claim C9. On a node without \<open>$ref\<close> and unions whose \<open>additionalProperties\<close> is truthy,
  the outcome does not depend on what \<open>additionalProperties\<close> holds (a schema there is
  never applied), nor on the value stored under a key that \<open>properties\<close> does not declare,
  nor on the presence of such a key unless \<open>required\<close> names it: undeclared keys add no
  error and no warning and are never checked.
\<close>

theorem additionalProperties_schema_never_applied:
  assumes "\<not> truthy_opt (schema_field (JObj fs) ''$ref'')"
    "\<not> truthy_opt (schema_field (JObj fs) ''oneOf'')" "\<not> truthy_opt (schema_field (JObj fs) ''anyOf'')"
    "\<not> truthy_opt (schema_field (JObj fs) ''allOf'')"
    and "truthy_opt (schema_field (JObj fs) ''additionalProperties'')"
  shows "(\<forall>a'. truthy a' \<longrightarrow>
            validateValueAgainstSchema n val (JObj (js_set fs ''additionalProperties'' a')) spec path acc =
            validateValueAgainstSchema n val (JObj fs) spec path acc)
       \<and> (\<forall>k x y. k \<notin> set (declared_keys (JObj fs)) \<longrightarrow>
            validateValueAgainstSchema n (JObj (js_set kvs k x)) (JObj fs) spec path acc =
            validateValueAgainstSchema n (JObj (js_set kvs k y)) (JObj fs) spec path acc)
       \<and> (\<forall>k. k \<notin> set (declared_keys (JObj fs)) \<and> k \<notin> set (required_keys (JObj fs)) \<longrightarrow>
            validateValueAgainstSchema n (JObj (js_delete kvs k)) (JObj fs) spec path acc =
            validateValueAgainstSchema n (JObj kvs) (JObj fs) spec path acc)"
proof (intro conjI allI impI)
  fix a' assume "truthy a'"
  with assms show "validateValueAgainstSchema n val (JObj (js_set fs ''additionalProperties'' a')) spec path acc =
            validateValueAgainstSchema n val (JObj fs) spec path acc"
    by (rule validate_additionalProperties_content)
next
  fix k x y assume k: "k \<notin> set (declared_keys (JObj fs))"
  have nn: "JObj fs \<noteq> JNull" by simp
  show "validateValueAgainstSchema n (JObj (js_set kvs k x)) (JObj fs) spec path acc =
            validateValueAgainstSchema n (JObj (js_set kvs k y)) (JObj fs) spec path acc"
  proof (rule validate_open_object_agree[OF nn assms])
    fix key assume "key \<in> set (declared_keys (JObj fs))"
    with k have "key \<noteq> k" by auto
    then show "get_property (JObj (js_set kvs k x)) key = get_property (JObj (js_set kvs k y)) key"
      by (simp add: get_property_js_set_other del: get_property.simps)
  next
    fix key
    show "has_property (JObj (js_set kvs k x)) key = has_property (JObj (js_set kvs k y)) key"
      by (simp only: has_property_js_set)
  qed
next
  fix k assume k: "k \<notin> set (declared_keys (JObj fs)) \<and> k \<notin> set (required_keys (JObj fs))"
  have nn: "JObj fs \<noteq> JNull" by simp
  show "validateValueAgainstSchema n (JObj (js_delete kvs k)) (JObj fs) spec path acc =
            validateValueAgainstSchema n (JObj kvs) (JObj fs) spec path acc"
  proof (rule validate_open_object_agree[OF nn assms])
    fix key assume "key \<in> set (declared_keys (JObj fs))"
    with k have "key \<noteq> k" by auto
    then show "get_property (JObj (js_delete kvs k)) key = get_property (JObj kvs) key"
      by (simp add: get_property_js_delete_other del: get_property.simps)
  next
    fix key assume "key \<in> set (required_keys (JObj fs))"
    with k have "key \<noteq> k" by auto
    then show "has_property (JObj (js_delete kvs k)) key = has_property (JObj kvs) key"
      by (simp add: has_property_def get_property_js_delete_other del: get_property.simps)
  qed
qed

theorem additionalProperties_schema_never_applied_witness:
  "\<not> truthy_opt (schema_field open_pet_schema ''$ref'')
   \<and> \<not> truthy_opt (schema_field open_pet_schema ''oneOf'') \<and> \<not> truthy_opt (schema_field open_pet_schema ''anyOf'')
   \<and> \<not> truthy_opt (schema_field open_pet_schema ''allOf'')
   \<and> truthy_opt (schema_field open_pet_schema ''additionalProperties'')
   \<and> ''age'' \<notin> set (declared_keys open_pet_schema) \<and> ''age'' \<notin> set (required_keys open_pet_schema)
   \<and> validateValueAgainstSchema 2 (JObj [(''name'', JStr ''Rex''), (''age'', JStr ''not a number'')])
         open_pet_schema pet_spec ''body'' ([], []) = Returns ([], [])
   \<and> validateValueAgainstSchema 2 (JObj [(''name'', JStr ''Rex'')]) open_pet_schema pet_spec ''body'' ([], []) =
       Returns ([], [])"
proof -
  let ?fs = "[(''type'', JStr ''object''), (''properties'', JObj [(''name'', string_schema)]),
           (''additionalProperties'', number_schema)]"
  let ?kvs = "[(''name'', JStr ''Rex''), (''age'', JStr ''not a number'')]"
  have s: "open_pet_schema = JObj ?fs" by (simp add: open_pet_schema_def)
  have h: "\<not> truthy_opt (schema_field (JObj ?fs) ''$ref'')"
    "\<not> truthy_opt (schema_field (JObj ?fs) ''oneOf'')" "\<not> truthy_opt (schema_field (JObj ?fs) ''anyOf'')"
    "\<not> truthy_opt (schema_field (JObj ?fs) ''allOf'')"
    "truthy_opt (schema_field (JObj ?fs) ''additionalProperties'')"
    by (simp_all add: schema_field_def truthy_opt_def number_schema_def)
  have k: "''age'' \<notin> set (declared_keys (JObj ?fs)) \<and> ''age'' \<notin> set (required_keys (JObj ?fs))"
    by (simp add: declared_keys_def required_keys_def schema_field_def object_keys_def)
  have d: "js_delete ?kvs ''age'' = [(''name'', JStr ''Rex'')]"
    by (simp add: js_delete_def)
  have e: "validateValueAgainstSchema 2 (JObj [(''name'', JStr ''Rex'')]) (JObj ?fs) pet_spec ''body'' ([], []) =
       Returns ([], [])"
    by code_simp
  from additionalProperties_schema_never_applied[OF h, of 2 _ pet_spec "''body''" "([], [])" ?kvs,
      THEN conjunct2, THEN conjunct2, THEN spec, THEN mp, OF k]
  have "validateValueAgainstSchema 2 (JObj ?kvs) (JObj ?fs) pet_spec ''body'' ([], []) =
        validateValueAgainstSchema 2 (JObj [(''name'', JStr ''Rex'')]) (JObj ?fs) pet_spec ''body'' ([], [])"
    by (simp only: d)
  with e have "validateValueAgainstSchema 2 (JObj ?kvs) (JObj ?fs) pet_spec ''body'' ([], []) = Returns ([], [])"
    by simp
  with h k e show ?thesis unfolding s by (intro conjI) simp_all
qed

section \<open>Properties of the pointer check\<close>

lemma replace_first_prefix: "startsWith ref p \<Longrightarrow> replace_first p [] ref = drop (length p) ref"
  by (cases ref) (auto simp: startsWith_def)

lemma check_ref_cases:
  "check_ref (components_section spec ''schemas'') (components_section spec ''parameters'') ref result =
     (if unresolved_in_components spec ref then report_unresolved ref result
      else if external_ref ref then result\<lparr>vr_warnings := vr_warnings result @ [external_message ref]\<rparr>
      else result)"
  by (auto simp: check_ref_def unresolved_in_components_def external_ref_def replace_first_prefix)

lemma fold_check_ref:
  "vr_errors (fold (check_ref (components_section spec ''schemas'') (components_section spec ''parameters'')) refs result) =
     vr_errors result @ map unresolved_message (filter (unresolved_in_components spec) refs)
   \<and> vr_valid (fold (check_ref (components_section spec ''schemas'') (components_section spec ''parameters'')) refs result) =
     (vr_valid result \<and> \<not> (\<exists>ref \<in> set refs. unresolved_in_components spec ref))
   \<and> vr_warnings (fold (check_ref (components_section spec ''schemas'') (components_section spec ''parameters'')) refs result) =
     vr_warnings result @ map external_message
        (filter (\<lambda>ref. \<not> unresolved_in_components spec ref \<and> external_ref ref) refs)"
proof (induction refs arbitrary: result)
  case Nil
  then show ?case by simp
next
  case (Cons ref refs)
  define r1 where "r1 = check_ref (components_section spec ''schemas'') (components_section spec ''parameters'') ref result"
  have e: "vr_errors r1 = vr_errors result @ (if unresolved_in_components spec ref then [unresolved_message ref] else [])"
    and v: "vr_valid r1 = (vr_valid result \<and> \<not> unresolved_in_components spec ref)"
    and w: "vr_warnings r1 = vr_warnings result @
       (if \<not> unresolved_in_components spec ref \<and> external_ref ref then [external_message ref] else [])"
    unfolding r1_def check_ref_cases by (simp_all add: report_unresolved_def)
  have step: "fold (check_ref (components_section spec ''schemas'') (components_section spec ''parameters'')) (ref # refs) result
     = fold (check_ref (components_section spec ''schemas'') (components_section spec ''parameters'')) refs r1"
    by (simp add: r1_def)
  show ?case unfolding step using Cons.IH[of r1] by (simp add: e v w)
qed

lemma unresolved_not_external: "unresolved_in_components spec ref \<Longrightarrow> \<not> external_ref ref"
  by (auto simp: unresolved_in_components_def external_ref_def)

lemma set_set_add: "set (set_add r refs) = insert r (set refs)"
  by (auto simp: set_add_def)

lemma fold_collect:
  "(\<And>v refs. v \<in> set vs \<Longrightarrow> set (collectRefs v refs) = set refs \<union> ref_strings v) \<Longrightarrow>
   set (fold (\<lambda>v. collectRefs v) vs refs) = set refs \<union> (\<Union>v \<in> set vs. ref_strings v)"
proof (induction vs arbitrary: refs)
  case Nil
  then show ?case by simp
next
  case (Cons v vs)
  have "set (fold (\<lambda>v. collectRefs v) vs (collectRefs v refs)) = set (collectRefs v refs) \<union> (\<Union>v \<in> set vs. ref_strings v)"
    using Cons.IH Cons.prems by simp
  also have "set (collectRefs v refs) = set refs \<union> ref_strings v" using Cons.prems by simp
  finally show ?case by auto
qed

lemma set_collectRefs: "set (collectRefs v refs) = set refs \<union> ref_strings v"
proof (induction v refs rule: collectRefs.induct)
  case (1 kvs refs)
  have "set (fold (\<lambda>v. collectRefs v) (map snd kvs)
       (case map_of kvs ''$ref'' of Some (JStr r) \<Rightarrow> set_add r refs | _ \<Rightarrow> refs)) =
     set (case map_of kvs ''$ref'' of Some (JStr r) \<Rightarrow> set_add r refs | _ \<Rightarrow> refs)
       \<union> (\<Union>v \<in> set (map snd kvs). ref_strings v)"
    by (rule fold_collect) (rule 1)
  moreover have "set (case map_of kvs ''$ref'' of Some (JStr r) \<Rightarrow> set_add r refs | _ \<Rightarrow> refs) =
     set refs \<union> (case map_of kvs ''$ref'' of Some (JStr r) \<Rightarrow> {r} | _ \<Rightarrow> {})"
    by (auto simp: set_set_add split: option.splits jsv.splits)
  ultimately show ?case by (simp only: collectRefs.simps ref_strings.simps) blast
next
  case (2 xs refs)
  have "set (fold (\<lambda>v. collectRefs v) xs refs) = set refs \<union> (\<Union>v \<in> set xs. ref_strings v)"
    by (rule fold_collect) (rule 2)
  then show ?case by simp
qed simp_all

lemma set_collected_refs:
  "set (collected_refs spec) =
     ref_strings_optional (get_property spec ''paths'') \<union> ref_strings_optional (get_property spec ''components'')"
  by (auto simp: collected_refs_def collect_optional_def ref_strings_optional_def set_collectRefs split: option.splits)

text \<open>
  Claim C5, as the code has it. The check collects every string held by a \<open>$ref\<close> property
  under \<open>paths\<close> and \<open>components\<close>. For each collected pointer that starts with
  \<open>#/components/schemas/\<close> or \<open>#/components/parameters/\<close> it records the error
  \<open>Unresolved $ref\<close> and marks the document invalid exactly when the rest of the pointer,
  read as a property of that section, is missing or falsy; the document stays valid when
  there is no such pointer. A pointer that does not start with \<open>#/\<close> is answered with a
  warning, never an error.
\<close>

theorem validateRefs_reports_component_pointers:
  assumes "spec \<noteq> JNull" and "sections_declared spec"
  shows "\<exists>r. validateRefs spec result = Inr r
     \<and> vr_errors r = vr_errors result
          @ map unresolved_message (filter (unresolved_in_components spec) (collected_refs spec))
     \<and> vr_valid r = (vr_valid result \<and> \<not> (\<exists>ref \<in> set (collected_refs spec). unresolved_in_components spec ref))
     \<and> vr_warnings r = vr_warnings result @ map external_message (filter external_ref (collected_refs spec))
     \<and> set (collected_refs spec) =
          ref_strings_optional (get_property spec ''paths'') \<union> ref_strings_optional (get_property spec ''components'')"
proof -
  define result1 where "result1 = result\<lparr>vr_stats := (vr_stats result)
                         \<lparr>st_schemas := length (object_keys (components_section spec ''schemas'')),
                          st_parameters := length (object_keys (components_section spec ''parameters''))\<rparr>\<rparr>"
  define r where "r = fold (check_ref (components_section spec ''schemas'') (components_section spec ''parameters''))
      (collected_refs spec) result1"
  have v: "validateRefs spec result = Inr r"
    using assms(1) by (simp add: validateRefs_def Let_def r_def result1_def collected_refs_def)
  have f: "filter (\<lambda>ref. \<not> unresolved_in_components spec ref \<and> external_ref ref) (collected_refs spec) =
      filter external_ref (collected_refs spec)"
    by (rule filter_cong) (auto dest: unresolved_not_external)
  from fold_check_ref[of spec "collected_refs spec" result1]
  have "vr_errors r = vr_errors result
          @ map unresolved_message (filter (unresolved_in_components spec) (collected_refs spec))"
    "vr_valid r = (vr_valid result \<and> \<not> (\<exists>ref \<in> set (collected_refs spec). unresolved_in_components spec ref))"
    "vr_warnings r = vr_warnings result @ map external_message (filter external_ref (collected_refs spec))"
    unfolding r_def[symmetric] f by (simp_all add: result1_def)
  with v set_collected_refs[of spec] show ?thesis by blast
qed

theorem validateRefs_reports_component_pointers_witness:
  "dangling_spec \<noteq> JNull \<and> sections_declared dangling_spec
   \<and> (\<exists>r. validateRefs dangling_spec empty_result = Inr r
         \<and> vr_errors r = [unresolved_message ''#/components/schemas/Missing'']
         \<and> vr_valid r = False \<and> vr_warnings r = [])"
proof -
  have h: "dangling_spec \<noteq> JNull" "sections_declared dangling_spec"
    by (simp add: dangling_spec_def) code_simp
  have f: "filter (unresolved_in_components dangling_spec) (collected_refs dangling_spec) = [''#/components/schemas/Missing'']"
    by code_simp
  have g: "filter external_ref (collected_refs dangling_spec) = []"
    by code_simp
  have e: "vr_errors empty_result = []" "vr_warnings empty_result = []" "vr_valid empty_result = True"
    by (simp_all add: empty_result_def)
  from validateRefs_reports_component_pointers[OF h, of empty_result]
  obtain r where r: "validateRefs dangling_spec empty_result = Inr r"
    "vr_errors r = vr_errors empty_result
          @ map unresolved_message (filter (unresolved_in_components dangling_spec) (collected_refs dangling_spec))"
    "vr_valid r = (vr_valid empty_result \<and> \<not> (\<exists>ref \<in> set (collected_refs dangling_spec). unresolved_in_components dangling_spec ref))"
    "vr_warnings r = vr_warnings empty_result @ map external_message (filter external_ref (collected_refs dangling_spec))"
    by blast
  have "\<exists>ref \<in> set (collected_refs dangling_spec). unresolved_in_components dangling_spec ref"
  proof -
    have "''#/components/schemas/Missing'' \<in> set (filter (unresolved_in_components dangling_spec) (collected_refs dangling_spec))"
      by (simp only: f) simp
    then show ?thesis by auto
  qed
  with r(3) have "vr_valid r = False" by simp
  moreover from r(2) have "vr_errors r = [unresolved_message ''#/components/schemas/Missing'']"
    by (simp only: f e) simp
  moreover from r(4) have "vr_warnings r = []" by (simp only: g e) simp
  ultimately show ?thesis using h r(1) by blast
qed

text \<open>A document whose pointers resolve nowhere, one outside the document and one into a
  section the check does not look at: no error is recorded and the document stays valid.\<close>

theorem validateRefs_skips_other_pointers:
  "collected_refs unchecked_refs_spec = [''other.json#/Pet'', ''#/responses/NotFound'']
   \<and> resolveRef ''other.json#/Pet'' unchecked_refs_spec = JNull
   \<and> resolveRef ''#/responses/NotFound'' unchecked_refs_spec = JNull
   \<and> validateRefs unchecked_refs_spec empty_result =
        Inr (empty_result\<lparr>vr_warnings := [external_message ''other.json#/Pet'']\<rparr>)
   \<and> vr_valid (empty_result\<lparr>vr_warnings := [external_message ''other.json#/Pet'']\<rparr>) = True
   \<and> vr_errors (empty_result\<lparr>vr_warnings := [external_message ''other.json#/Pet'']\<rparr>) = []"
  by code_simp


section \<open>Properties of the converter\<close>












lemma split_on_absent: "c \<notin> set s \<Longrightarrow> split_on c s = [s]"
  by (induction s) auto

lemma components_path: "CHR ''/'' \<notin> set name \<Longrightarrow>
   split_on CHR ''/'' (''components/schemas/'' @ name) = [''components'', ''schemas'', name]"
  by (simp add: split_on_absent)









section \<open>Fixture generation\<close>

lemma fold_push_or_skip:
  "fold (push_or_skip ex d) cs (fx, n) =
     (fx @ map (\<lambda>f. ((d, fst f), snd f)) (filter (\<lambda>f. fst f \<notin> set ex) cs),
      n + length (filter (\<lambda>f. fst f \<in> set ex) cs))"
  by (induction cs arbitrary: fx n) (simp_all add: push_or_skip_def)

lemma put_file_keys: "fst ` set (put_file n c files) = insert n (fst ` set files)"
proof (induction files)
  case Nil
  show ?case by simp
next
  case (Cons f files)
  obtain m c' where f: "f = (m, c')" by (cases f)
  show ?case
  proof (cases "m = n")
    case True
    then show ?thesis by (simp add: f)
  next
    case False
    then show ?thesis using Cons.IH by (simp add: f insert_commute)
  qed
qed

lemma map_of_put_file: "map_of (put_file n c files) k = (if k = n then Some c else map_of files k)"
  by (induction files) auto

lemma existing_write:
  "set (getExistingFixtures (write_fixture ((d, n), c) fs) dir) =
     (if dir = d then insert n (set (getExistingFixtures fs d)) else set (getExistingFixtures fs dir))"
proof (cases "dir = d")
  case True
  show ?thesis
  proof (cases "fs d")
    case None
    then show ?thesis using True by (simp add: getExistingFixtures_def write_fixture_def)
  next
    case (Some files)
    then show ?thesis using True put_file_keys[of n c files]
      by (simp add: getExistingFixtures_def write_fixture_def)
  qed
next
  case False
  then show ?thesis by (simp add: getExistingFixtures_def write_fixture_def)
qed

lemma file_at_write:
  "file_at (write_fixture ((d, n), c) fs) dir k =
     (if dir = d \<and> k = n then Some c else file_at fs dir k)"
  by (simp add: file_at_def write_fixture_def map_of_put_file split: option.splits)

lemma existing_fold_write:
  "set (getExistingFixtures (fold write_fixture (map (\<lambda>f. ((d, fst f), snd f)) fl) fs) dir) =
     (if dir = d then fst ` set fl \<union> set (getExistingFixtures fs d) else set (getExistingFixtures fs dir))"
proof (induction fl arbitrary: fs)
  case Nil
  show ?case by simp
next
  case (Cons f fl)
  show ?case by (simp add: Cons.IH existing_write)
qed

lemma file_at_fold_write:
  "dir \<noteq> d \<or> k \<notin> fst ` set fl \<Longrightarrow>
   file_at (fold write_fixture (map (\<lambda>f. ((d, fst f), snd f)) fl) fs) dir k = file_at fs dir k"
proof (induction fl arbitrary: fs)
  case Nil
  show ?case by simp
next
  case (Cons f fl)
  then have "dir \<noteq> d \<or> k \<notin> fst ` set fl" and n: "\<not> (dir = d \<and> k = fst f)" by auto
  then have "file_at (fold write_fixture (map (\<lambda>f. ((d, fst f), snd f)) fl) (write_fixture ((d, fst f), snd f) fs)) dir k
             = file_at (write_fixture ((d, fst f), snd f) fs) dir k"
    using Cons.IH by blast
  also have "\<dots> = file_at fs dir k" using n by (auto simp: file_at_write)
  finally show ?case by simp
qed

lemma file_at_existing: "file_at fs dir k = Some c \<Longrightarrow> k \<in> set (getExistingFixtures fs dir)"
  by (auto simp: file_at_def getExistingFixtures_def split: option.splits dest: map_of_SomeD intro: rev_image_eqI)

lemma generate_operation_eq:
  "generate_operation dir_of operation (fs, r) =
     (let d = fixture_dir dir_of operation;
          ex = getExistingFixtures fs d;
          new = filter (\<lambda>f. fst f \<notin> set ex) (candidates operation);
          r1 = r\<lparr>skipped := skipped r + length (filter (\<lambda>f. fst f \<in> set ex) (candidates operation))\<rparr>
      in if new \<noteq> []
         then (fold write_fixture (map (\<lambda>f. ((d, fst f), snd f)) new) fs,
               r1\<lparr>operations := operations r1 @ [g_operationId operation],
                   generated := generated r1 + length new\<rparr>)
         else (fs, r1))"
  by (simp add: generate_operation_def generateOperationFixtures_def fixture_dir_def Let_def fold_push_or_skip)

lemma length_filter_split:
  "length (filter (\<lambda>f. fst f \<notin> A) cs) + length (filter (\<lambda>f. fst f \<in> A) cs) = length cs"
  by (induction cs) auto

lemma step_keeps_files:
  assumes "file_at fs dir k = Some c"
  shows "file_at (fst (generate_operation dir_of operation (fs, r))) dir k = Some c"
proof -
  have "k \<in> set (getExistingFixtures fs dir)" using assms by (rule file_at_existing)
  then have "dir \<noteq> fixture_dir dir_of operation \<or>
             k \<notin> fst ` set (filter (\<lambda>f. fst f \<notin> set (getExistingFixtures fs (fixture_dir dir_of operation))) (candidates operation))"
    by auto
  then show ?thesis using assms
    by (simp add: generate_operation_eq Let_def file_at_fold_write)
qed

lemma step_existing_mono:
  "set (getExistingFixtures fs dir) \<subseteq> set (getExistingFixtures (fst (generate_operation dir_of operation (fs, r))) dir)"
  by (auto simp: generate_operation_eq Let_def existing_fold_write)

lemma step_covers:
  "fst ` set (candidates operation)
     \<subseteq> set (getExistingFixtures (fst (generate_operation dir_of operation (fs, r))) (fixture_dir dir_of operation))"
  by (auto simp: generate_operation_eq Let_def existing_fold_write filter_empty_conv)

lemma step_counts:
  "generated (snd (generate_operation dir_of operation (fs, r))) + skipped (snd (generate_operation dir_of operation (fs, r)))
     = generated r + skipped r + length (candidates operation)"
  using length_filter_split[of "set (getExistingFixtures fs (fixture_dir dir_of operation))" "candidates operation"]
  by (auto simp: generate_operation_eq Let_def)

lemma step_all_existing:
  assumes "fst ` set (candidates operation) \<subseteq> set (getExistingFixtures fs (fixture_dir dir_of operation))"
  shows "generate_operation dir_of operation (fs, r) = (fs, r\<lparr>skipped := skipped r + length (candidates operation)\<rparr>)"
proof -
  have a: "filter (\<lambda>f. fst f \<notin> set (getExistingFixtures fs (fixture_dir dir_of operation))) (candidates operation) = []"
    using assms by (auto simp: filter_empty_conv)
  have b: "filter (\<lambda>f. fst f \<in> set (getExistingFixtures fs (fixture_dir dir_of operation))) (candidates operation) = candidates operation"
    using assms by (auto simp: filter_id_conv)
  show ?thesis by (simp add: generate_operation_eq Let_def a b)
qed

lemma run_first:
  assumes "fold (generate_operation dir_of) ops (fs, r) = (fs1, r1)"
  shows "(\<forall>dir k c. file_at fs dir k = Some c \<longrightarrow> file_at fs1 dir k = Some c)
       \<and> (\<forall>dir. set (getExistingFixtures fs dir) \<subseteq> set (getExistingFixtures fs1 dir))
       \<and> (\<forall>operation \<in> set ops. fst ` set (candidates operation) \<subseteq> set (getExistingFixtures fs1 (fixture_dir dir_of operation)))
       \<and> generated r1 + skipped r1 = generated r + skipped r + sum_list (map (\<lambda>operation. length (candidates operation)) ops)"
  using assms
proof (induction ops arbitrary: fs r)
  case Nil
  then show ?case by simp
next
  case (Cons operation ops)
  obtain fs' r' where s: "generate_operation dir_of operation (fs, r) = (fs', r')"
    by (cases "generate_operation dir_of operation (fs, r)")
  with Cons.prems have rest: "fold (generate_operation dir_of) ops (fs', r') = (fs1, r1)" by simp
  note ih = Cons.IH[OF rest]
  have keep: "\<And>dir k c. file_at fs dir k = Some c \<Longrightarrow> file_at fs' dir k = Some c"
    using step_keeps_files[of fs _ _ _ dir_of operation r] s by simp
  have mono: "\<And>dir. set (getExistingFixtures fs dir) \<subseteq> set (getExistingFixtures fs' dir)"
    using step_existing_mono[of fs _ dir_of operation r] s by simp
  have cover: "fst ` set (candidates operation) \<subseteq> set (getExistingFixtures fs' (fixture_dir dir_of operation))"
    using step_covers[of operation dir_of fs r] s by simp
  have count: "generated r' + skipped r' = generated r + skipped r + length (candidates operation)"
    using step_counts[of dir_of operation fs r] s by simp
  from ih have ih1: "\<And>dir k c. file_at fs' dir k = Some c \<Longrightarrow> file_at fs1 dir k = Some c"
    and ih2: "\<And>dir. set (getExistingFixtures fs' dir) \<subseteq> set (getExistingFixtures fs1 dir)"
    and ih3: "\<And>o'. o' \<in> set ops \<Longrightarrow> fst ` set (candidates o') \<subseteq> set (getExistingFixtures fs1 (fixture_dir dir_of o'))"
    and ih4: "generated r1 + skipped r1 = generated r' + skipped r' + sum_list (map (\<lambda>operation. length (candidates operation)) ops)"
    by blast+
  have 1: "\<forall>dir k c. file_at fs dir k = Some c \<longrightarrow> file_at fs1 dir k = Some c"
    using keep ih1 by blast
  have 2: "\<forall>dir. set (getExistingFixtures fs dir) \<subseteq> set (getExistingFixtures fs1 dir)"
    using mono ih2 by blast
  have 3: "\<forall>o' \<in> set (operation # ops). fst ` set (candidates o') \<subseteq> set (getExistingFixtures fs1 (fixture_dir dir_of o'))"
  proof
    fix o' assume "o' \<in> set (operation # ops)"
    then consider "o' = operation" | "o' \<in> set ops" by auto
    then show "fst ` set (candidates o') \<subseteq> set (getExistingFixtures fs1 (fixture_dir dir_of o'))"
    proof cases
      case 1
      then show ?thesis using cover ih2[of "fixture_dir dir_of operation"] by (rule_tac subset_trans) simp_all
    next
      case 2
      then show ?thesis by (rule ih3)
    qed
  qed
  have 4: "generated r1 + skipped r1 = generated r + skipped r + sum_list (map (\<lambda>operation. length (candidates operation)) (operation # ops))"
    using count ih4 by simp
  show ?case
    apply (intro conjI)
       apply (rule 1)
      apply (rule 2)
     apply (rule 3)
    apply (rule 4)
    done
qed

lemma run_second:
  assumes "\<forall>operation \<in> set ops. fst ` set (candidates operation) \<subseteq> set (getExistingFixtures fs (fixture_dir dir_of operation))"
  shows "fold (generate_operation dir_of) ops (fs, r)
         = (fs, r\<lparr>skipped := skipped r + sum_list (map (\<lambda>operation. length (candidates operation)) ops)\<rparr>)"
  using assms
proof (induction ops arbitrary: r)
  case Nil
  show ?case by simp
next
  case (Cons operation ops)
  then have here: "fst ` set (candidates operation) \<subseteq> set (getExistingFixtures fs (fixture_dir dir_of operation))"
    and rest: "\<forall>operation \<in> set ops. fst ` set (candidates operation) \<subseteq> set (getExistingFixtures fs (fixture_dir dir_of operation))"
    by simp_all
  show ?case
    by (simp add: step_all_existing[OF here] Cons.IH[OF rest] add.assoc)
qed

text \<open>
  Claim C8, as the code has it. A run of the generator leaves every file that exists
  before it as it is: a fixture is written only when its name is not in the listing of
  its operation's directory, taken before the fixtures of that operation are collected,
  and is counted as skipped otherwise. So of two runs in succession the second writes no
  file, names no operation, leaves the file system as the first run left it, and counts
  as skipped every fixture the first run wrote or skipped.
\<close>

theorem generate_never_overwrites_and_settles:
  assumes first: "generate dir_of paths fs = (fs1, r1)"
      and second: "generate dir_of paths fs1 = (fs2, r2)"
  shows "(\<forall>dir name content. file_at fs dir name = Some content \<longrightarrow> file_at fs1 dir name = Some content)
       \<and> fs2 = fs1 \<and> generated r2 = 0 \<and> operations r2 = []
       \<and> skipped r2 = generated r1 + skipped r1"
proof -
  let ?r0 = "\<lparr>generated = 0, skipped = 0, operations = []\<rparr>"
  let ?total = "sum_list (map (\<lambda>operation. length (candidates operation)) (operations_of paths))"
  have f: "fold (generate_operation dir_of) (operations_of paths) (fs, ?r0) = (fs1, r1)"
    using first by (simp add: generate_def)
  note facts = run_first[OF f]
  have covered: "\<forall>operation \<in> set (operations_of paths).
      fst ` set (candidates operation) \<subseteq> set (getExistingFixtures fs1 (fixture_dir dir_of operation))"
    using facts by blast
  have total: "generated r1 + skipped r1 = ?total" using facts by simp
  have "generate dir_of paths fs1 = (fs1, ?r0\<lparr>skipped := skipped ?r0 + ?total\<rparr>)"
    unfolding generate_def by (rule run_second[OF covered])
  with second have "fs2 = fs1" and "r2 = ?r0\<lparr>skipped := skipped ?r0 + ?total\<rparr>" by simp_all
  then have "fs2 = fs1" "generated r2 = 0" "operations r2 = []" "skipped r2 = generated r1 + skipped r1"
    using total by simp_all
  moreover have "\<forall>dir name content. file_at fs dir name = Some content \<longrightarrow> file_at fs1 dir name = Some content"
    using facts by blast
  ultimately show ?thesis by blast
qed


theorem generate_never_overwrites_and_settles_witness:
  "generate sample_dir_of sample_paths hand_edited
     = (fst (generate sample_dir_of sample_paths hand_edited), snd (generate sample_dir_of sample_paths hand_edited))
   \<and> file_at hand_edited ''apps/get-app'' ''response.200.found.json'' = Some (JStr ''edited'')
   \<and> file_at (fst (generate sample_dir_of sample_paths hand_edited)) ''apps/get-app'' ''response.200.found.json''
       = Some (JStr ''edited'')
   \<and> generated (snd (generate sample_dir_of sample_paths hand_edited)) = 1
   \<and> skipped (snd (generate sample_dir_of sample_paths hand_edited)) = 1
   \<and> fst (generate sample_dir_of sample_paths (fst (generate sample_dir_of sample_paths hand_edited)))
       = fst (generate sample_dir_of sample_paths hand_edited)
   \<and> generated (snd (generate sample_dir_of sample_paths (fst (generate sample_dir_of sample_paths hand_edited)))) = 0
   \<and> skipped (snd (generate sample_dir_of sample_paths (fst (generate sample_dir_of sample_paths hand_edited)))) = 2"
proof -
  let ?run1 = "generate sample_dir_of sample_paths hand_edited"
  let ?run2 = "generate sample_dir_of sample_paths (fst ?run1)"
  have first: "?run1 = (fst ?run1, snd ?run1)" by simp
  have second: "?run2 = (fst ?run2, snd ?run2)" by simp
  have edited: "file_at hand_edited ''apps/get-app'' ''response.200.found.json'' = Some (JStr ''edited'')"
    by code_simp
  have g1: "generated (snd ?run1) = 1" by code_simp
  have s1: "skipped (snd ?run1) = 1" by code_simp
  note t = generate_never_overwrites_and_settles[OF first second]
  from t edited have kept: "file_at (fst ?run1) ''apps/get-app'' ''response.200.found.json'' = Some (JStr ''edited'')"
    by blast
  from t have same: "fst ?run2 = fst ?run1" and g2: "generated (snd ?run2) = 0"
    and s2: "skipped (snd ?run2) = generated (snd ?run1) + skipped (snd ?run1)"
    by blast+
  from s2 g1 s1 have s2': "skipped (snd ?run2) = 2" by simp
  show ?thesis
    apply (intro conjI)
           apply (rule first)
          apply (rule edited)
         apply (rule kept)
        apply (rule g1)
       apply (rule s1)
      apply (rule same)
     apply (rule g2)
    apply (rule s2')
    done
qed

text \<open>The listing is not updated while the fixtures of one operation are collected: two
  named examples whose names give one file name are both written in the same run, the
  second over the first, and the run counts two generated fixtures for the one file.\<close>

theorem generate_writes_colliding_names_twice:
  "map fst (fst (generateOperationFixtures sample_dir_of colliding_operation ''Apps''
                   (getExistingFixtures Map.empty ''apps/get-app'')))
     = [(''apps/get-app'', ''response.200.not-found.json''), (''apps/get-app'', ''response.200.not-found.json'')]
   \<and> generated (snd (generate sample_dir_of colliding_paths Map.empty)) = 2
   \<and> skipped (snd (generate sample_dir_of colliding_paths Map.empty)) = 0
   \<and> getExistingFixtures (fst (generate sample_dir_of colliding_paths Map.empty)) ''apps/get-app''
       = [''response.200.not-found.json'']
   \<and> file_at (fst (generate sample_dir_of colliding_paths Map.empty)) ''apps/get-app'' ''response.200.not-found.json''
       = Some (responseFixture ''not-found'' ''200'' (JStr ''second''))"
  by code_simp

end
